theory Spec2Isabelle
  imports Main "HOL-Library.AList"
begin

section \<open>The data of scheduler\_worker.js\<close>

text \<open>
  Faculty members and time slots are opaque identifiers (strings); a lecture slot is the
  object \<^verbatim>\<open>{ id, timeSlot }\<close>. The field \<^verbatim>\<open>id\<close> is written \<open>id'\<close>, since \<open>id\<close> is the
  identity function of HOL. Keys of a JavaScript \<^verbatim>\<open>Map\<close> and members of a \<^verbatim>\<open>Set\<close> are
  compared by value for identifiers, which is HOL equality here.
\<close>

type_synonym faculty = string

record lectureSlot =
  id' :: nat
  timeSlot :: string

text \<open>
  The objects \<^verbatim>\<open>{ lecture: l, isHappy: isHappy }\<close> pushed on \<^verbatim>\<open>possible\<close> (line 81) and
  stored in \<^verbatim>\<open>schedule\<close> (line 90).
\<close>

record candidate =
  lecture :: lectureSlot
  isHappy :: bool

text \<open>
  What an exception carries: a \<^verbatim>\<open>TypeError\<close> for an operation applied to a value of the
  wrong shape, a \<^verbatim>\<open>RangeError\<close> for a call that exceeds the engine's call stack. The text of
  \<^verbatim>\<open>error.message\<close> is chosen by the JavaScript engine and is not modelled.
\<close>

datatype thrown = TypeError | RangeError

text \<open>
  The messages handed to \<^verbatim>\<open>self.postMessage\<close>, by their \<^verbatim>\<open>type\<close> field: lines 65--70,
  52--56, 135 and 138. The schedule of a \<^verbatim>\<open>solutionUpdate\<close> is
  \<^verbatim>\<open>Array.from(schedule.entries())\<close>, the entries of the map in insertion order.
\<close>

datatype message =
    progressUpdate nat faculty nat
  | solutionUpdate "(faculty \<times> candidate) list" int
  | complete nat int
  | error thrown

text \<open>
  The variables closed over by \<^verbatim>\<open>solveForFaculty\<close> that it mutates (lines 24--32), together
  with the messages posted so far. \<^verbatim>\<open>schedule\<close> is a \<^verbatim>\<open>Map\<close>, whose entries keep their
  insertion order: an association list with \<open>AList.update\<close> for \<^verbatim>\<open>set\<close> (an existing key keeps
  its place, a new key goes last) and \<open>AList.delete\<close> for \<^verbatim>\<open>delete\<close>.
  \<^verbatim>\<open>assignedLectureSlots\<close> is a \<^verbatim>\<open>Set\<close> that is only tested for membership.
  \<^verbatim>\<open>facultyTimeSlotMap\<close> maps a faculty member to a \<^verbatim>\<open>Set\<close> object shared with the local
  variable \<^verbatim>\<open>assignedTimes\<close>. The three fields of \<^verbatim>\<open>progressState\<close> are
  \<open>progressFacultyIndex\<close>, \<open>combinations\<close> and \<open>bestScore\<close>. Scores and counters are
  JavaScript numbers holding integers; they stay far below \<open>2^53\<close>, where they are exact.
\<close>

record searchState =
  schedule :: "(faculty \<times> candidate) list"
  assignedLectureSlots :: "nat set"
  facultyTimeSlotMap :: "faculty \<rightharpoonup> string set"
  progressFacultyIndex :: nat
  combinations :: nat
  bestScore :: int
  posted :: "message list"

text \<open>The object returned at lines 108--111.\<close>

record searchResult =
  finalCombinations :: nat
  finalScore :: int


text \<open>
  A value of the payload as the handler meets it: \<open>Missing\<close> is \<^verbatim>\<open>undefined\<close> or \<^verbatim>\<open>null\<close>,
  \<open>Malformed\<close> is a present value that is not iterable (for the preference data: that has
  no \<^verbatim>\<open>map\<close> method), \<open>Given x\<close> is an array with the elements \<open>x\<close>.
\<close>

datatype 'a wire = Missing | Malformed | Given 'a

section \<open>Helper functions\<close>

text \<open>
  \<^verbatim>\<open>shuffleArray\<close> (lines 4--11), the Fisher-Yates loop for \<open>i\<close> from \<open>length - 1\<close> down to
  \<open>1\<close>. \<open>rnd i\<close> stands for the draw of \<^verbatim>\<open>Math.random()\<close> made at index \<open>i\<close>, reduced to
  the range \<open>0..i\<close> as \<^verbatim>\<open>Math.floor(Math.random() * (i + 1))\<close> is.
\<close>

fun shuffleFrom :: "(nat \<Rightarrow> nat) \<Rightarrow> nat \<Rightarrow> 'a list \<Rightarrow> 'a list" where
  "shuffleFrom rnd 0 array = array"
| "shuffleFrom rnd (Suc k) array =
     (let i = Suc k; j = rnd i mod (i + 1)
      in shuffleFrom rnd k (array[i := array ! j, j := array ! i]))"

definition shuffleArray :: "(nat \<Rightarrow> nat) \<Rightarrow> 'a list \<Rightarrow> 'a list" where
  "shuffleArray rnd array = shuffleFrom rnd (length array - 1) array"

text \<open>
  What the message handler posts for an inbound message without payload: line 118
  destructures \<^verbatim>\<open>event.data\<close>, which throws a TypeError when it is \<^verbatim>\<open>undefined\<close>. The line
  stands before the \<^verbatim>\<open>try\<close> block, so neither line 135 nor line 138 is reached and nothing
  is posted.
\<close>

definition onmessage_undefined :: "message list" where
  "onmessage_undefined = []"

text \<open>
  \<^verbatim>\<open>yieldWorker\<close> (lines 14--19) suspends the search until a timer task runs; the messages
  that arrived meanwhile are handled first. \<open>signals\<close> is the number of inbound messages
  without payload delivered during this suspension. Each runs the handler, which posts
  \<open>onmessage_undefined\<close> and cannot reach the variables of the running search, local to its
  invocation of \<^verbatim>\<open>solveFullSearchInWorker\<close>. Start requests arriving during a search are
  outside this model.
\<close>

definition yieldWorker :: "nat \<Rightarrow> searchState \<Rightarrow> searchState" where
  "yieldWorker signals st =
     st\<lparr>posted := posted st @ concat (replicate signals onmessage_undefined)\<rparr>"

section \<open>The search\<close>

text \<open>\<^verbatim>\<open>facultyTimeSlotMap.get(faculty) || new Set()\<close> (line 75).\<close>

definition assignedTimesOf :: "searchState \<Rightarrow> faculty \<Rightarrow> string set" where
  "assignedTimesOf st faculty =
     (case facultyTimeSlotMap st faculty of None \<Rightarrow> {} | Some s \<Rightarrow> s)"

text \<open>\<^verbatim>\<open>facultyPreferredSlots.get(faculty) || new Set()\<close> (line 76).\<close>

definition preferredSlotsOf :: "(faculty \<rightharpoonup> string set) \<Rightarrow> faculty \<Rightarrow> string set" where
  "preferredSlotsOf facultyPreferredSlots faculty =
     (case facultyPreferredSlots faculty of None \<Rightarrow> {} | Some s \<Rightarrow> s)"

text \<open>
  Lines 75--84: the lectures whose id is not assigned and whose time slot this faculty
  member does not hold, tagged with \<^verbatim>\<open>isHappy\<close>, then sorted by
  \<^verbatim>\<open>(a, b) => b.isHappy - a.isHappy\<close>. \<^verbatim>\<open>Array.prototype.sort\<close> is stable, so the happy
  candidates come first and each group keeps the order of \<^verbatim>\<open>allLectureSlots\<close>.
\<close>

definition possibleFor ::
  "lectureSlot list \<Rightarrow> (faculty \<rightharpoonup> string set) \<Rightarrow> faculty \<Rightarrow> searchState \<Rightarrow> candidate list" where
  "possibleFor allLectureSlots facultyPreferredSlots faculty st =
     (let assignedTimes = assignedTimesOf st faculty;
          preferredSlots = preferredSlotsOf facultyPreferredSlots faculty;
          possible = map (\<lambda>l. \<lparr>lecture = l, isHappy = (timeSlot l \<in> preferredSlots)\<rparr>)
                       (filter (\<lambda>l. id' l \<notin> assignedLectureSlots st \<and> timeSlot l \<notin> assignedTimes)
                          allLectureSlots)
      in filter isHappy possible @ filter (\<lambda>c. \<not> isHappy c) possible)"

text \<open>
  Lines 87 and 90--93: the attempt is counted and the candidate is added. The set object
  \<^verbatim>\<open>assignedTimes\<close> is the one stored in \<^verbatim>\<open>facultyTimeSlotMap\<close> (from line 75, or from line
  93 of the first iteration), so adding to it is an update of the map's entry.
\<close>

definition assign :: "faculty \<Rightarrow> candidate \<Rightarrow> searchState \<Rightarrow> searchState" where
  "assign faculty c st =
     st\<lparr>combinations := combinations st + 1,
        schedule := AList.update faculty c (schedule st),
        assignedLectureSlots := insert (id' (lecture c)) (assignedLectureSlots st),
        facultyTimeSlotMap :=
          (facultyTimeSlotMap st)(faculty \<mapsto> insert (timeSlot (lecture c)) (assignedTimesOf st faculty))\<rparr>"

text \<open>Lines 98--100, the three statements after the awaited recursive call.\<close>

definition backtrack :: "faculty \<Rightarrow> candidate \<Rightarrow> searchState \<Rightarrow> searchState" where
  "backtrack faculty c st =
     st\<lparr>schedule := AList.delete faculty (schedule st),
        assignedLectureSlots := assignedLectureSlots st - {id' (lecture c)},
        facultyTimeSlotMap :=
          (facultyTimeSlotMap st)(faculty \<mapsto> assignedTimesOf st faculty - {timeSlot (lecture c)})\<rparr>"

text \<open>
  \<^verbatim>\<open>solveForFaculty\<close> (lines 42--102) and its loop over \<^verbatim>\<open>possible\<close> (lines 86--101).
  \<open>inbound k\<close> is the number of payload-less messages delivered while the search is
  suspended at the yield taken when \<^verbatim>\<open>progressState.combinations\<close> is \<open>k\<close>. The function is
  local to \<^verbatim>\<open>solveFullSearchInWorker\<close>, which calls it at \<open>(0, 0)\<close>, and each recursive call
  adds one to the index up to the base case, so the index never exceeds the length of
  \<^verbatim>\<open>allFaculty\<close>; the last branch is never taken.
\<close>

function solveForFaculty ::
    "faculty list \<Rightarrow> lectureSlot list \<Rightarrow> (faculty \<rightharpoonup> string set) \<Rightarrow> (nat \<Rightarrow> nat) \<Rightarrow>
     nat \<Rightarrow> int \<Rightarrow> searchState \<Rightarrow> searchState"
  and forPossible ::
    "faculty list \<Rightarrow> lectureSlot list \<Rightarrow> (faculty \<rightharpoonup> string set) \<Rightarrow> (nat \<Rightarrow> nat) \<Rightarrow>
     nat \<Rightarrow> int \<Rightarrow> candidate list \<Rightarrow> searchState \<Rightarrow> searchState"
where
  "solveForFaculty allFaculty allLectureSlots facultyPreferredSlots inbound
       facultyIndex currentUnhappy st =
     (if currentUnhappy \<ge> bestScore st then st
      else
        let st1 = st\<lparr>progressFacultyIndex := facultyIndex\<rparr> in
        if facultyIndex = length allFaculty then
          st1\<lparr>bestScore := currentUnhappy,
              posted := posted st1 @ [solutionUpdate (schedule st1) currentUnhappy]\<rparr>
        else if facultyIndex < length allFaculty then
          let faculty = allFaculty ! facultyIndex;
              st2 = (if combinations st1 mod 1000 = 0
                     then yieldWorker (inbound (combinations st1))
                            (st1\<lparr>posted := posted st1 @
                               [progressUpdate facultyIndex faculty (combinations st1)]\<rparr>)
                     else st1)
          in forPossible allFaculty allLectureSlots facultyPreferredSlots inbound
               facultyIndex currentUnhappy
               (possibleFor allLectureSlots facultyPreferredSlots faculty st2) st2
        else st1)"
| "forPossible allFaculty allLectureSlots facultyPreferredSlots inbound
       facultyIndex currentUnhappy [] st = st"
| "forPossible allFaculty allLectureSlots facultyPreferredSlots inbound
       facultyIndex currentUnhappy (c # cs) st =
     (let faculty = allFaculty ! facultyIndex;
          newUnhappy = currentUnhappy + (if isHappy c then 0 else 1)
      in forPossible allFaculty allLectureSlots facultyPreferredSlots inbound
           facultyIndex currentUnhappy cs
           (backtrack faculty c
              (solveForFaculty allFaculty allLectureSlots facultyPreferredSlots inbound
                 (facultyIndex + 1) newUnhappy (assign faculty c st))))"
  by pat_completeness auto
termination
  by (relation "inv_image (less_than <*lex*> less_than)
        (\<lambda>x. case x of
           Inl (fs, ls, ps, ib, i, cur, st) \<Rightarrow> (2 * (length fs + 1 - i), 0)
         | Inr (fs, ls, ps, ib, i, cur, cs, st) \<Rightarrow> (2 * (length fs + 1 - i) - 1, Suc (length cs)))")
     auto


text \<open>
  \<^verbatim>\<open>solveFullSearchInWorker\<close> (lines 22--112). The grouping \<^verbatim>\<open>lectureSlotsByTime\<close> (lines
  34--38) and the parameter \<^verbatim>\<open>teacherAvailabilityMap\<close> are never read; the shuffled copy of
  line 104 is bound and not used, as in the source. The result pairs the messages posted
  with the returned object.
\<close>

definition solveFullSearchInWorker ::
    "(nat \<Rightarrow> nat) \<Rightarrow> (nat \<Rightarrow> nat) \<Rightarrow> faculty list \<Rightarrow> lectureSlot list \<Rightarrow> 'a \<Rightarrow>
     (faculty \<rightharpoonup> string set) \<Rightarrow> int \<Rightarrow> message list \<times> searchResult" where
  "solveFullSearchInWorker rnd inbound allFaculty allLectureSlots teacherAvailabilityMap
       facultyPreferredSlots initialBestScore =
     (let st0 = \<lparr>schedule = [], assignedLectureSlots = {}, facultyTimeSlotMap = Map.empty,
                 progressFacultyIndex = 0, combinations = 0, bestScore = initialBestScore,
                 posted = []\<rparr>;
          shuffledFaculty = shuffleArray rnd allFaculty;
          st = solveForFaculty allFaculty allLectureSlots facultyPreferredSlots inbound 0 0 st0
      in (posted st, \<lparr>finalCombinations = combinations st, finalScore = bestScore st\<rparr>))"

section \<open>The message handler\<close>

text \<open>
  The payload of a start request (line 118), its fields named after \<^verbatim>\<open>event.data\<close>. An
  element of the availability data is \<open>None\<close> when it is not an object, an element of the
  lecture list is \<open>None\<close> when it is \<^verbatim>\<open>null\<close> or \<^verbatim>\<open>undefined\<close>, and an element of the
  preference data is \<open>None\<close> when it cannot be destructured as \<^verbatim>\<open>[k, v]\<close> (it is not
  iterable); otherwise it is the pair of a faculty member and the value \<open>v\<close>. Elements
  that are present are taken to have the types of the data model, and the bound to be an
  integer.
\<close>

record 'a eventData =
  data_allFaculty :: "faculty list wire"
  data_allLectureSlots :: "lectureSlot option list wire"
  data_teacherAvailabilityMap :: "'a option list wire"
  data_facultyPreferredSlots :: "(faculty \<times> string list wire) option list wire"
  data_initialBestScore :: int

text \<open>
  Line 122, \<^verbatim>\<open>new Map(teacherAvailabilityMap)\<close>: an empty map for \<^verbatim>\<open>undefined\<close> or \<^verbatim>\<open>null\<close>, a
  TypeError for a value that is not iterable or has an element that is not an object. The
  map is never read; its entries stand for it.
\<close>

definition reconstructTeacherAvailabilityMap :: "'a option list wire \<Rightarrow> thrown + 'a list" where
  "reconstructTeacherAvailabilityMap w =
     (case w of
        Missing \<Rightarrow> Inr []
      | Malformed \<Rightarrow> Inl TypeError
      | Given es \<Rightarrow> (case those es of None \<Rightarrow> Inl TypeError | Some entries \<Rightarrow> Inr entries))"

text \<open>
  \<^verbatim>\<open>new Set(v)\<close> in the callback of line 123: empty for \<^verbatim>\<open>undefined\<close> or \<^verbatim>\<open>null\<close>, a
  TypeError for a value that is not iterable.
\<close>

fun newSet :: "string list wire \<Rightarrow> thrown + string set" where
  "newSet Missing = Inr {}"
| "newSet Malformed = Inl TypeError"
| "newSet (Given v) = Inr (set v)"

text \<open>
  The call of \<^verbatim>\<open>map\<close> in line 123 with the callback \<^verbatim>\<open>([k, v]) => [k, new Set(v)]\<close>, element
  by element; the first element on which the callback throws ends it.
\<close>

fun mapEntries ::
  "(faculty \<times> string list wire) option list \<Rightarrow> thrown + (faculty \<times> string set) list" where
  "mapEntries [] = Inr []"
| "mapEntries (None # es) = Inl TypeError"
| "mapEntries (Some (k, v) # es) =
     (case newSet v of
        Inl e \<Rightarrow> Inl e
      | Inr s \<Rightarrow> (case mapEntries es of Inl e \<Rightarrow> Inl e | Inr kvs \<Rightarrow> Inr ((k, s) # kvs)))"

text \<open>
  Line 123 as a whole: \<^verbatim>\<open>map\<close> exists on an array only, and \<^verbatim>\<open>new Map\<close> of the mapped pairs
  lets the later of two pairs with the same key win.
\<close>

definition reconstructFacultyPreferredSlots ::
  "(faculty \<times> string list wire) option list wire \<Rightarrow> thrown + (faculty \<rightharpoonup> string set)" where
  "reconstructFacultyPreferredSlots w =
     (case w of
        Given es \<Rightarrow>
          (case mapEntries es of Inl e \<Rightarrow> Inl e | Inr kvs \<Rightarrow> Inr (map_of (rev kvs)))
      | _ \<Rightarrow> Inl TypeError)"

text \<open>
  The map that line 123 builds from well-formed pairs \<^verbatim>\<open>[faculty, slots]\<close>.
\<close>

definition reconstructPreferredSlots ::
  "(faculty \<times> string list) list \<Rightarrow> (faculty \<rightharpoonup> string set)" where
  "reconstructPreferredSlots pairs = map_of (rev (map (\<lambda>(k, v). (k, set v)) pairs))"

text \<open>
  Lines 35--38, the loop \<^verbatim>\<open>for (const lecture of allLectureSlots)\<close>: a TypeError when the
  value is not iterable, and at \<^verbatim>\<open>lecture.timeSlot\<close> for an element that is \<^verbatim>\<open>null\<close> or
  \<^verbatim>\<open>undefined\<close>. The grouping that the loop builds is never read.
\<close>

definition iterateLectureSlots :: "lectureSlot option list wire \<Rightarrow> thrown + lectureSlot list" where
  "iterateLectureSlots w =
     (case w of
        Given ls \<Rightarrow> (case those ls of None \<Rightarrow> Inl TypeError | Some lectures \<Rightarrow> Inr lectures)
      | _ \<Rightarrow> Inl TypeError)"

text \<open>Line 104, \<^verbatim>\<open>[...allFaculty]\<close>: a TypeError when the value is not iterable.\<close>

definition spreadFaculty :: "faculty list wire \<Rightarrow> thrown + faculty list" where
  "spreadFaculty w = (case w of Given fs \<Rightarrow> Inr fs | _ \<Rightarrow> Inl TypeError)"

text \<open>
  \<^verbatim>\<open>self.onmessage\<close> (lines 116--140): the messages posted by one invocation. Without a
  payload line 118 throws outside the \<^verbatim>\<open>try\<close>. Inside the \<^verbatim>\<open>try\<close>, lines 122 and 123
  unpack the availability and the preference data, then \<^verbatim>\<open>solveFullSearchInWorker\<close> is
  called; its lines 35--38 and 104 come before its first call of \<^verbatim>\<open>solveForFaculty\<close> and
  before any message, and are placed here so that the search has typed arguments. The
  first of these steps that throws ends the \<^verbatim>\<open>try\<close>, and the \<^verbatim>\<open>catch\<close> posts the error
  message. Otherwise the search runs (with no \<^verbatim>\<open>RangeError\<close> from the engine) and line 135
  posts the completion.
\<close>

definition onmessage ::
  "(nat \<Rightarrow> nat) \<Rightarrow> (nat \<Rightarrow> nat) \<Rightarrow> 'a eventData option \<Rightarrow> message list" where
  "onmessage rnd inbound event =
     (case event of
        None \<Rightarrow> onmessage_undefined
      | Some d \<Rightarrow>
          (case reconstructTeacherAvailabilityMap (data_teacherAvailabilityMap d) of
             Inl e \<Rightarrow> [error e]
           | Inr reconstructedTeacherAvailabilityMap \<Rightarrow>
               (case reconstructFacultyPreferredSlots (data_facultyPreferredSlots d) of
                  Inl e \<Rightarrow> [error e]
                | Inr reconstructedFacultyPreferredSlots \<Rightarrow>
                    (case iterateLectureSlots (data_allLectureSlots d) of
                       Inl e \<Rightarrow> [error e]
                     | Inr allLectureSlots \<Rightarrow>
                         (case spreadFaculty (data_allFaculty d) of
                            Inl e \<Rightarrow> [error e]
                          | Inr allFaculty \<Rightarrow>
                              (let (msgs, result) =
                                     solveFullSearchInWorker rnd inbound allFaculty
                                       allLectureSlots reconstructedTeacherAvailabilityMap
                                       reconstructedFacultyPreferredSlots
                                       (data_initialBestScore d)
                               in msgs @
                                  [complete (finalCombinations result) (finalScore result)]))))))"

text \<open>
  A start request in which every field and every element is well-formed, with any
  contents.
\<close>

definition startRequest ::
  "faculty list \<Rightarrow> lectureSlot list \<Rightarrow> 'a list \<Rightarrow> (faculty \<times> string list) list \<Rightarrow> int \<Rightarrow>
   'a eventData" where
  "startRequest fs ls tam pairs bound =
     \<lparr>data_allFaculty = Given fs, data_allLectureSlots = Given (map Some ls),
      data_teacherAvailabilityMap = Given (map Some tam),
      data_facultyPreferredSlots = Given (map (\<lambda>(k, v). Some (k, Given v)) pairs),
      data_initialBestScore = bound\<rparr>"

text \<open>
  A payload is structurally well-formed when none of the unpacking steps has a value of
  the wrong shape before it.
\<close>

definition wellFormedRequest :: "'a eventData \<Rightarrow> bool" where
  "wellFormedRequest d \<longleftrightarrow>
     (case data_teacherAvailabilityMap d of
        Missing \<Rightarrow> True | Malformed \<Rightarrow> False | Given es \<Rightarrow> list_all (\<lambda>e. e \<noteq> None) es) \<and>
     (case data_facultyPreferredSlots d of
        Given es \<Rightarrow> list_all (\<lambda>e. case e of None \<Rightarrow> False | Some (k, v) \<Rightarrow> v \<noteq> Malformed) es
      | _ \<Rightarrow> False) \<and>
     (case data_allLectureSlots d of
        Given ls \<Rightarrow> list_all (\<lambda>l. l \<noteq> None) ls | _ \<Rightarrow> False) \<and>
     (case data_allFaculty d of Given fs \<Rightarrow> True | _ \<Rightarrow> False)"

section \<open>Notions used in the statements\<close>

text \<open>
  The state in which the loop over \<^verbatim>\<open>possible\<close> starts: after line 46 and, when the counter
  is a multiple of 1000, the progress message of lines 65--70.
\<close>

definition reported :: "faculty list \<Rightarrow> nat \<Rightarrow> searchState \<Rightarrow> searchState" where
  "reported allFaculty facultyIndex st =
     (if combinations st mod 1000 = 0
      then st\<lparr>progressFacultyIndex := facultyIndex,
              posted := posted st @
                [progressUpdate facultyIndex (allFaculty ! facultyIndex) (combinations st)]\<rparr>
      else st\<lparr>progressFacultyIndex := facultyIndex\<rparr>)"

text \<open>Two states with the same consumed lecture ids and the same consumed time slots.\<close>

definition sameConsumed :: "searchState \<Rightarrow> searchState \<Rightarrow> bool" where
  "sameConsumed st st' \<longleftrightarrow>
     assignedLectureSlots st' = assignedLectureSlots st \<and>
     assignedTimesOf st' = assignedTimesOf st"

text \<open>The initial state of lines 24--32.\<close>

definition initialState :: "int \<Rightarrow> searchState" where
  "initialState initialBestScore =
     \<lparr>schedule = [], assignedLectureSlots = {}, facultyTimeSlotMap = Map.empty,
      progressFacultyIndex = 0, combinations = 0, bestScore = initialBestScore, posted = []\<rparr>"

text \<open>The scores of the \<^verbatim>\<open>solutionUpdate\<close> messages of a trace, in the order posted.\<close>

fun solutionScores :: "message list \<Rightarrow> int list" where
  "solutionScores [] = []"
| "solutionScores (solutionUpdate sched score # ms) = score # solutionScores ms"
| "solutionScores (m # ms) = solutionScores ms"

fun isComplete :: "message \<Rightarrow> bool" where
  "isComplete (complete n s) = True"
| "isComplete m = False"

text \<open>The two kinds of message posted inside \<^verbatim>\<open>solveForFaculty\<close>.\<close>

fun isSearchMessage :: "message \<Rightarrow> bool" where
  "isSearchMessage (progressUpdate i f n) = True"
| "isSearchMessage (solutionUpdate sched score) = True"
| "isSearchMessage m = False"

text \<open>
  A stretch \<open>ms\<close> of posted messages takes the best score from \<open>b\<close> to \<open>b'\<close>: the scores
  posted descend strictly from \<open>b\<close>, the last of them is \<open>b'\<close>, and all the messages are
  progress or solution messages.
\<close>

definition improves :: "int \<Rightarrow> message list \<Rightarrow> int \<Rightarrow> bool" where
  "improves b ms b' \<longleftrightarrow>
     sorted_wrt (>) (b # solutionScores ms) \<and> b' = last (b # solutionScores ms) \<and>
     list_all isSearchMessage ms"

text \<open>
  What is asked of a transferred schedule: every faculty member of the list is the key of
  exactly one entry, no lecture id occurs in two entries, and each \<open>isHappy\<close> flag says
  whether the time slot of the lecture is in the preference set of the entry's key.
\<close>

definition validSchedule ::
  "faculty list \<Rightarrow> (faculty \<rightharpoonup> string set) \<Rightarrow> (faculty \<times> candidate) list \<Rightarrow> bool" where
  "validSchedule fs ps sched \<longleftrightarrow>
     (\<forall>f \<in> set fs. length (filter (\<lambda>e. fst e = f) sched) = 1) \<and>
     distinct (map (\<lambda>e. id' (lecture (snd e))) sched) \<and>
     (\<forall>e \<in> set sched.
        isHappy (snd e) = (timeSlot (lecture (snd e)) \<in> preferredSlotsOf ps (fst e)))"

text \<open>
  Invariants of the schedule during the search: keys and lecture ids are not repeated,
  every lecture id of an entry is marked as assigned, and the flags are right.
\<close>

definition scheduleOk :: "(faculty \<rightharpoonup> string set) \<Rightarrow> searchState \<Rightarrow> bool" where
  "scheduleOk ps st \<longleftrightarrow>
     distinct (map fst (schedule st)) \<and>
     distinct (map (\<lambda>e. id' (lecture (snd e))) (schedule st)) \<and>
     (\<forall>e \<in> set (schedule st).
        id' (lecture (snd e)) \<in> assignedLectureSlots st \<and>
        isHappy (snd e) = (timeSlot (lecture (snd e)) \<in> preferredSlotsOf ps (fst e)))"

text \<open>
  At a call for index \<open>i\<close> the keys are faculty members of earlier indices, and an earlier
  member without entry occurs again at index \<open>i\<close> or later.
\<close>

definition keysCover :: "faculty list \<Rightarrow> nat \<Rightarrow> searchState \<Rightarrow> bool" where
  "keysCover fs i st \<longleftrightarrow>
     fst ` set (schedule st) \<subseteq> set (take i fs) \<and>
     set (take i fs) \<subseteq> fst ` set (schedule st) \<union> set (drop i fs)"

definition solutionsValid ::
  "faculty list \<Rightarrow> (faculty \<rightharpoonup> string set) \<Rightarrow> message list \<Rightarrow> bool" where
  "solutionsValid fs ps ms \<longleftrightarrow>
     (\<forall>sched n. solutionUpdate sched n \<in> set ms \<longrightarrow> validSchedule fs ps sched)"

text \<open>What the filter and the tagging of lines 78--83 establish for a candidate.\<close>

definition admissible ::
  "faculty list \<Rightarrow> (faculty \<rightharpoonup> string set) \<Rightarrow> nat \<Rightarrow> searchState \<Rightarrow> candidate \<Rightarrow> bool" where
  "admissible fs ps i st c \<longleftrightarrow>
     id' (lecture c) \<notin> assignedLectureSlots st \<and>
     timeSlot (lecture c) \<notin> assignedTimesOf st (fs ! i) \<and>
     isHappy c = (timeSlot (lecture c) \<in> preferredSlotsOf ps (fs ! i))"

text \<open>
  The schedule on return keeps entries of the schedule on entry, in their order, and
  among them all those whose key does not occur at index \<open>i\<close> or later.
\<close>

definition prunedSchedule :: "faculty list \<Rightarrow> nat \<Rightarrow> searchState \<Rightarrow> searchState \<Rightarrow> bool" where
  "prunedSchedule fs i st st' \<longleftrightarrow>
     (\<exists>p. schedule st' = filter p (schedule st)) \<and>
     fst ` set (schedule st) - set (drop i fs) \<subseteq> fst ` set (schedule st')"

text \<open>
  The reference against which the search is compared, written from the data model of the
  specification and not from the search. An assignment gives the faculty member at
  position \<open>k\<close> of the list the \<open>k\<close>-th lecture of \<open>a\<close>. It is valid when no two of its
  entries share a lecture id and no two entries of the same faculty member share a time
  slot.
\<close>

definition validAssignment :: "faculty list \<Rightarrow> lectureSlot list \<Rightarrow> bool" where
  "validAssignment fs a \<longleftrightarrow>
     distinct (map id' a) \<and> distinct (map (\<lambda>(f, l). (f, timeSlot l)) (zip fs a))"

text \<open>
  The score: the number of entries whose time slot is not in the preference set of their
  faculty member.
\<close>

definition unhappyCount :: "(faculty \<rightharpoonup> string set) \<Rightarrow> faculty list \<Rightarrow> lectureSlot list \<Rightarrow> int" where
  "unhappyCount ps fs a =
     int (length (filter (\<lambda>(f, l). timeSlot l \<notin> preferredSlotsOf ps f) (zip fs a)))"

text \<open>
  All valid complete assignments, enumerated from all lists of lectures of the length of
  the faculty list.
\<close>

definition completeAssignments :: "faculty list \<Rightarrow> lectureSlot list \<Rightarrow> lectureSlot list list" where
  "completeAssignments fs ls = filter (validAssignment fs) (List.n_lists (length fs) ls)"

text \<open>
  The brute-force reference: starting from the bound, the minimum over the scores of all
  valid complete assignments.
\<close>

definition bruteForce ::
  "faculty list \<Rightarrow> lectureSlot list \<Rightarrow> (faculty \<rightharpoonup> string set) \<Rightarrow> int \<Rightarrow> int" where
  "bruteForce fs ls ps bound =
     fold (\<lambda>a best. min best (unhappyCount ps fs a)) (completeAssignments fs ls) bound"

text \<open>
  \<open>b'\<close> is the least of \<open>b\<close> and the costs of the members of \<open>A\<close>.
\<close>

definition leastOf :: "('a \<Rightarrow> int) \<Rightarrow> int \<Rightarrow> 'a set \<Rightarrow> int \<Rightarrow> bool" where
  "leastOf cost b A b' \<longleftrightarrow>
     b' \<le> b \<and> (\<forall>a \<in> A. b' \<le> cost a) \<and> (b' = b \<or> (\<exists>a \<in> A. b' = cost a))"

text \<open>
  The valid complete assignments that extend the partial assignment \<open>as\<close> of the first \<open>i\<close>
  faculty members, and those among them whose lecture at position \<open>i\<close> is in \<open>L\<close>.
\<close>

definition extensions ::
  "faculty list \<Rightarrow> lectureSlot list \<Rightarrow> nat \<Rightarrow> lectureSlot list \<Rightarrow> lectureSlot list set" where
  "extensions fs ls i as =
     {a. length a = length fs \<and> set a \<subseteq> set ls \<and> validAssignment fs a \<and> take i a = as}"

definition extensionsVia ::
  "faculty list \<Rightarrow> lectureSlot list \<Rightarrow> nat \<Rightarrow> lectureSlot list \<Rightarrow> lectureSlot set \<Rightarrow>
   lectureSlot list set" where
  "extensionsVia fs ls i as L = {a \<in> extensions fs ls i as. a ! i \<in> L}"

text \<open>
  The state at a call for index \<open>i\<close> with running score \<open>cur\<close> represents the partial
  assignment \<open>as\<close>.
\<close>

definition consistent ::
  "faculty list \<Rightarrow> lectureSlot list \<Rightarrow> (faculty \<rightharpoonup> string set) \<Rightarrow> nat \<Rightarrow> lectureSlot list \<Rightarrow>
   int \<Rightarrow> searchState \<Rightarrow> bool" where
  "consistent fs ls ps i as cur st \<longleftrightarrow>
     length as = i \<and> i \<le> length fs \<and> set as \<subseteq> set ls \<and> validAssignment fs as \<and>
     assignedLectureSlots st = id' ` set as \<and>
     (\<forall>f. assignedTimesOf st f = {timeSlot l |l. (f, l) \<in> set (zip fs as)}) \<and>
     cur = unhappyCount ps fs as"


section \<open>Concrete inputs\<close>

text \<open>The scenario of two faculty members and three lecture slots.\<close>

definition scenarioFaculty :: "faculty list" where
  "scenarioFaculty = [''A'', ''B'']"

definition scenarioLectures :: "lectureSlot list" where
  "scenarioLectures =
     [\<lparr>id' = 1, timeSlot = ''9am''\<rparr>, \<lparr>id' = 2, timeSlot = ''9am''\<rparr>,
      \<lparr>id' = 3, timeSlot = ''10am''\<rparr>]"

definition scenarioPreferences :: "(faculty \<times> string list) list" where
  "scenarioPreferences = [(''A'', [''10am'']), (''B'', [])]"

definition noAvailability :: "unit list" where
  "noAvailability = []"

definition noSignals :: "nat \<Rightarrow> nat" where
  "noSignals k = 0"

definition noShuffle :: "nat \<Rightarrow> nat" where
  "noShuffle i = i"


text \<open>Random draws that always select index 0.\<close>

definition alwaysFirst :: "nat \<Rightarrow> nat" where
  "alwaysFirst i = 0"

text \<open>Two lecture slots with the same id, and preferences of a faculty member who is not
  in the faculty list.\<close>

definition sameIdLectures :: "lectureSlot list" where
  "sameIdLectures = [\<lparr>id' = 1, timeSlot = ''9am''\<rparr>, \<lparr>id' = 1, timeSlot = ''10am''\<rparr>]"

definition strangerPreferences :: "(faculty \<times> string list) list" where
  "strangerPreferences = [(''Z'', [''9am''])]"

text \<open>1001 lecture slots, and one payload-less message delivered at the first yield.\<close>

definition manyLectures :: "lectureSlot list" where
  "manyLectures = map (\<lambda>k. \<lparr>id' = k, timeSlot = ''t''\<rparr>) [0..<1001]"

definition signalAtFirstYield :: "nat \<Rightarrow> nat" where
  "signalAtFirstYield k = (if k = 0 then 1 else 0)"

text \<open>The solution the scenario emits under the initial bound 2.\<close>

definition scenarioSolution :: "(faculty \<times> candidate) list" where
  "scenarioSolution =
     [(''A'', \<lparr>lecture = \<lparr>id' = 3, timeSlot = ''10am''\<rparr>, isHappy = True\<rparr>),
      (''B'', \<lparr>lecture = \<lparr>id' = 1, timeSlot = ''9am''\<rparr>, isHappy = False\<rparr>)]"



text \<open>
  The start request of the scenario with one field replaced: availability data \<^verbatim>\<open>[1]\<close>,
  whose element is not an object; the lecture list \<^verbatim>\<open>[null]\<close>; the preference data
  \<^verbatim>\<open>[['A', 5]]\<close>, whose slot collection is not iterable.
\<close>

definition unreadableAvailability :: "unit eventData" where
  "unreadableAvailability =
     (startRequest scenarioFaculty scenarioLectures noAvailability scenarioPreferences 2)
       \<lparr>data_teacherAvailabilityMap := Given [None]\<rparr>"

definition nullLecture :: "unit eventData" where
  "nullLecture =
     (startRequest scenarioFaculty scenarioLectures noAvailability scenarioPreferences 2)
       \<lparr>data_allLectureSlots := Given [None]\<rparr>"

definition unreadableSlots :: "unit eventData" where
  "unreadableSlots =
     (startRequest scenarioFaculty scenarioLectures noAvailability scenarioPreferences 2)
       \<lparr>data_facultyPreferredSlots := Given [Some (''A'', Malformed)]\<rparr>"

section \<open>Unfolding the search\<close>

declare solveForFaculty.simps [simp del]

lemma yieldWorker_id [simp]: "yieldWorker n st = st"
  by (simp add: yieldWorker_def onmessage_undefined_def)

lemma solve_prune:
  "bestScore st \<le> cur \<Longrightarrow> solveForFaculty fs ls ps ib i cur st = st"
  by (simp add: solveForFaculty.simps)

lemma solve_base:
  "cur < bestScore st \<Longrightarrow>
   solveForFaculty fs ls ps ib (length fs) cur st =
     st\<lparr>progressFacultyIndex := length fs, bestScore := cur,
        posted := posted st @ [solutionUpdate (schedule st) cur]\<rparr>"
  by (simp add: solveForFaculty.simps)

lemma solve_step:
  "cur < bestScore st \<Longrightarrow> i < length fs \<Longrightarrow>
   solveForFaculty fs ls ps ib i cur st =
     forPossible fs ls ps ib i cur (possibleFor ls ps (fs ! i) (reported fs i st))
       (reported fs i st)"
  by (simp add: solveForFaculty.simps reported_def Let_def)

lemma solve_beyond:
  "cur < bestScore st \<Longrightarrow> length fs < i \<Longrightarrow>
   solveForFaculty fs ls ps ib i cur st = st\<lparr>progressFacultyIndex := i\<rparr>"
  by (simp add: solveForFaculty.simps)

lemma loop_step:
  "forPossible fs ls ps ib i cur (c # cs) st =
     forPossible fs ls ps ib i cur cs
       (backtrack (fs ! i) c
          (solveForFaculty fs ls ps ib (Suc i) (cur + (if isHappy c then 0 else 1))
             (assign (fs ! i) c st)))"
  by (simp add: Let_def)

lemma assignedTimesOf_assign [simp]:
  "assignedTimesOf (assign f c st) g =
     (if g = f then insert (timeSlot (lecture c)) (assignedTimesOf st f)
      else assignedTimesOf st g)"
  by (simp add: assign_def assignedTimesOf_def)

lemma assignedTimesOf_backtrack [simp]:
  "assignedTimesOf (backtrack f c st) g =
     (if g = f then assignedTimesOf st f - {timeSlot (lecture c)} else assignedTimesOf st g)"
  by (simp add: backtrack_def assignedTimesOf_def)

lemma assign_fields [simp]:
  "schedule (assign f c st) = AList.update f c (schedule st)"
  "assignedLectureSlots (assign f c st) = insert (id' (lecture c)) (assignedLectureSlots st)"
  "combinations (assign f c st) = Suc (combinations st)"
  "bestScore (assign f c st) = bestScore st"
  "posted (assign f c st) = posted st"
  by (simp_all add: assign_def)

lemma backtrack_fields [simp]:
  "schedule (backtrack f c st) = AList.delete f (schedule st)"
  "assignedLectureSlots (backtrack f c st) = assignedLectureSlots st - {id' (lecture c)}"
  "combinations (backtrack f c st) = combinations st"
  "bestScore (backtrack f c st) = bestScore st"
  "posted (backtrack f c st) = posted st"
  by (simp_all add: backtrack_def)

lemma reported_fields [simp]:
  "schedule (reported fs i st) = schedule st"
  "assignedLectureSlots (reported fs i st) = assignedLectureSlots st"
  "facultyTimeSlotMap (reported fs i st) = facultyTimeSlotMap st"
  "combinations (reported fs i st) = combinations st"
  "bestScore (reported fs i st) = bestScore st"
  by (simp_all add: reported_def)

lemma assignedTimesOf_reported [simp]:
  "assignedTimesOf (reported fs i st) = assignedTimesOf st"
  by (rule ext) (simp add: assignedTimesOf_def)

lemma possibleFor_iff:
  "c \<in> set (possibleFor ls ps f st) \<longleftrightarrow>
     lecture c \<in> set ls \<and> id' (lecture c) \<notin> assignedLectureSlots st \<and>
     timeSlot (lecture c) \<notin> assignedTimesOf st f \<and>
     isHappy c = (timeSlot (lecture c) \<in> preferredSlotsOf ps f)"
  by (cases c) (auto simp: possibleFor_def Let_def)

lemma reported_alt:
  "(if combinations (st\<lparr>progressFacultyIndex := i\<rparr>) mod 1000 = 0
    then yieldWorker (ib (combinations (st\<lparr>progressFacultyIndex := i\<rparr>)))
           (st\<lparr>progressFacultyIndex := i\<rparr>
              \<lparr>posted := posted (st\<lparr>progressFacultyIndex := i\<rparr>) @
                 [progressUpdate i (fs ! i) (combinations (st\<lparr>progressFacultyIndex := i\<rparr>))]\<rparr>)
    else st\<lparr>progressFacultyIndex := i\<rparr>) = reported fs i st"
  by (simp add: reported_def)

text \<open>
  Computation induction for the search with the four inputs fixed: a property \<open>P\<close> of the
  calls of \<open>solveForFaculty\<close> and a property \<open>Q\<close> of the remaining iterations of its loop.
\<close>

lemma search_induct [case_names node exhausted attempt]:
  fixes P :: "nat \<Rightarrow> int \<Rightarrow> searchState \<Rightarrow> bool"
    and Q :: "nat \<Rightarrow> int \<Rightarrow> candidate list \<Rightarrow> searchState \<Rightarrow> bool"
  assumes solve: "\<And>i cur st.
      (cur < bestScore st \<Longrightarrow> i < length fs \<Longrightarrow>
         Q i cur (possibleFor ls ps (fs ! i) (reported fs i st)) (reported fs i st))
      \<Longrightarrow> P i cur st"
    and nil: "\<And>i cur st. Q i cur [] st"
    and cons: "\<And>i cur c cs st.
      P (Suc i) (cur + (if isHappy c then 0 else 1)) (assign (fs ! i) c st) \<Longrightarrow>
      Q i cur cs (backtrack (fs ! i) c
         (solveForFaculty fs ls ps ib (Suc i) (cur + (if isHappy c then 0 else 1))
            (assign (fs ! i) c st))) \<Longrightarrow>
      Q i cur (c # cs) st"
  shows "P i cur st" and "Q i cur cs st"
proof -
  have p: "fs' = fs \<and> ls' = ls \<and> ps' = ps \<and> ib' = ib \<longrightarrow> P i cur st"
    and q: "fs' = fs \<and> ls' = ls \<and> ps' = ps \<and> ib' = ib \<longrightarrow> Q i cur cs st"
    for fs' ls' ps' ib'
  proof (induct fs' ls' ps' ib' i cur st and fs' ls' ps' ib' i cur cs st
         rule: solveForFaculty_forPossible.induct)
    case (1 fs' ls' ps' ib' i cur st)
    show ?case
    proof
      assume eq: "fs' = fs \<and> ls' = ls \<and> ps' = ps \<and> ib' = ib"
      show "P i cur st"
      proof (rule solve)
        assume lt: "cur < bestScore st" and i: "i < length fs"
        have "Q i cur (possibleFor ls' ps' (fs' ! i) (reported fs' i st)) (reported fs' i st)"
          using "1.hyps"[OF _ refl _ _ refl refl, unfolded reported_alt] lt i eq
          by simp
        then show "Q i cur (possibleFor ls ps (fs ! i) (reported fs i st)) (reported fs i st)"
          using eq by simp
      qed
    qed
  next
    case (2 fs' ls' ps' ib' i cur st)
    show ?case by (simp add: nil)
  next
    case (3 fs' ls' ps' ib' i cur c cs st)
    show ?case
    proof
      assume eq: "fs' = fs \<and> ls' = ls \<and> ps' = ps \<and> ib' = ib"
      show "Q i cur (c # cs) st"
        using "3.hyps"(1)[OF refl refl] "3.hyps"(2)[OF refl refl] eq
        by (auto intro!: cons)
    qed
  qed
  from p[of fs ls ps ib] show "P i cur st" by simp
  from q[of fs ls ps ib] show "Q i cur cs st" by simp
qed

section \<open>Consumed lecture ids and time slots are restored\<close>

lemma sameConsumed_refl [simp]: "sameConsumed st st"
  by (simp add: sameConsumed_def)

lemma consumed_restored:
  "sameConsumed st (solveForFaculty fs ls ps ib i cur st)"
  "(\<forall>c \<in> set cs. id' (lecture c) \<notin> assignedLectureSlots st \<and>
        timeSlot (lecture c) \<notin> assignedTimesOf st (fs ! i)) \<Longrightarrow>
   sameConsumed st (forPossible fs ls ps ib i cur cs st)"
proof (induct i cur st and i cur cs st
       rule: search_induct[where fs=fs and ls=ls and ps=ps and ib=ib])
  case (node i cur st)
  show ?case
  proof (cases "bestScore st \<le> cur")
    case True
    then show ?thesis by (simp add: solve_prune)
  next
    case False
    then have lt: "cur < bestScore st" by simp
    consider "i = length fs" | "i < length fs" | "length fs < i" by linarith
    then show ?thesis
    proof cases
      case 1
      then show ?thesis using lt
        by (simp add: solve_base sameConsumed_def assignedTimesOf_def fun_eq_iff)
    next
      case 2
      have "sameConsumed (reported fs i st)
              (forPossible fs ls ps ib i cur (possibleFor ls ps (fs ! i) (reported fs i st))
                 (reported fs i st))"
        using node[OF lt 2] by (simp add: possibleFor_iff)
      then show ?thesis using lt 2 by (simp add: solve_step sameConsumed_def)
    next
      case 3
      then show ?thesis using lt
        by (simp add: solve_beyond sameConsumed_def assignedTimesOf_def fun_eq_iff)
    qed
  qed
next
  case (exhausted i cur st)
  then show ?case by simp
next
  case (attempt i cur c cs st)
  let ?f = "fs ! i"
  let ?new = "cur + (if isHappy c then 0 else 1)"
  let ?st1 = "solveForFaculty fs ls ps ib (Suc i) ?new (assign ?f c st)"
  let ?st2 = "backtrack ?f c ?st1"
  have a: "sameConsumed (assign ?f c st) ?st1"
    using attempt.hyps(1) by simp
  have b: "sameConsumed st ?st2"
    using a attempt.prems by (auto simp: sameConsumed_def fun_eq_iff)
  from b have b1: "assignedLectureSlots ?st2 = assignedLectureSlots st"
    and b2: "assignedTimesOf ?st2 = assignedTimesOf st"
    by (simp_all add: sameConsumed_def)
  have "\<forall>c \<in> set cs. id' (lecture c) \<notin> assignedLectureSlots ?st2 \<and>
          timeSlot (lecture c) \<notin> assignedTimesOf ?st2 (fs ! i)"
    using attempt.prems unfolding b1 b2 by simp
  then have "sameConsumed ?st2 (forPossible fs ls ps ib i cur cs ?st2)"
    by (rule attempt.hyps(2))
  then show ?case unfolding loop_step sameConsumed_def b1 b2 .
qed

lemma solveFullSearchInWorker_alt:
  "solveFullSearchInWorker rnd ib fs ls tam ps bound =
     (posted (solveForFaculty fs ls ps ib 0 0 (initialState bound)),
      \<lparr>finalCombinations = combinations (solveForFaculty fs ls ps ib 0 0 (initialState bound)),
       finalScore = bestScore (solveForFaculty fs ls ps ib 0 0 (initialState bound))\<rparr>)"
  by (simp add: solveFullSearchInWorker_def initialState_def Let_def)

lemma those_map_Some [simp]: "those (map Some xs) = Some xs"
  by (induction xs) simp_all

lemma mapEntries_wellFormed [simp]:
  "mapEntries (map (\<lambda>(k, v). Some (k, Given v)) pairs) = Inr (map (\<lambda>(k, v). (k, set v)) pairs)"
  by (induction pairs) (simp_all add: case_prod_beta)

lemma onmessage_startRequest:
  "onmessage rnd ib (Some (startRequest fs ls tam pairs bound)) =
     fst (solveFullSearchInWorker rnd ib fs ls tam (reconstructPreferredSlots pairs) bound) @
     [complete
        (finalCombinations
           (snd (solveFullSearchInWorker rnd ib fs ls tam (reconstructPreferredSlots pairs) bound)))
        (finalScore
           (snd (solveFullSearchInWorker rnd ib fs ls tam (reconstructPreferredSlots pairs) bound)))]"
  by (simp add: onmessage_def startRequest_def reconstructTeacherAvailabilityMap_def
        reconstructFacultyPreferredSlots_def reconstructPreferredSlots_def
        iterateLectureSlots_def spreadFaculty_def split_beta Let_def)

section \<open>The root call under a bound that is not positive\<close>

text \<open>
  C10. When \<open>initialBestScore \<le> 0\<close> and the faculty list is not empty, the root call
  \<open>solveForFaculty(0, 0)\<close> returns at the pruning test of line 44: nothing is posted by the
  search (no candidate is attempted, no solution is emitted), the returned object has
  \<open>finalCombinations = 0\<close> and \<open>finalScore = initialBestScore\<close>, and the handler posts that
  completion only.
\<close>

theorem nonpositive_bound_prunes_root:
  assumes "initialBestScore \<le> 0" and "allFaculty \<noteq> []"
  shows "solveFullSearchInWorker rnd inbound allFaculty allLectureSlots tam
           facultyPreferredSlots initialBestScore =
           ([], \<lparr>finalCombinations = 0, finalScore = initialBestScore\<rparr>) \<and>
         onmessage rnd inbound
           (Some (startRequest allFaculty allLectureSlots tam pairs initialBestScore)) =
           [complete 0 initialBestScore]"
proof -
  have "solveForFaculty allFaculty allLectureSlots ps inbound 0 0 (initialState initialBestScore) =
          initialState initialBestScore" for ps
    using assms(1) by (simp add: solve_prune initialState_def)
  then have r: "solveFullSearchInWorker rnd inbound allFaculty allLectureSlots tam ps
                  initialBestScore = ([], \<lparr>finalCombinations = 0, finalScore = initialBestScore\<rparr>)"
    for ps
    by (simp add: solveFullSearchInWorker_alt initialState_def)
  show ?thesis
    by (simp add: onmessage_startRequest r)
qed

theorem nonpositive_bound_prunes_root_witness:
  "(0::int) \<le> 0 \<and> scenarioFaculty \<noteq> [] \<and>
   solveFullSearchInWorker noShuffle noSignals scenarioFaculty scenarioLectures noAvailability
     (reconstructPreferredSlots scenarioPreferences) 0 =
     ([], \<lparr>finalCombinations = 0, finalScore = 0\<rparr>) \<and>
   onmessage noShuffle noSignals
     (Some (startRequest scenarioFaculty scenarioLectures noAvailability scenarioPreferences 0)) =
     [complete 0 0]"
proof -
  have h1: "(0::int) \<le> 0" by simp
  have h2: "scenarioFaculty \<noteq> []" by (simp add: scenarioFaculty_def)
  show ?thesis
    by (simp add: h2 nonpositive_bound_prunes_root[OF h1 h2])
qed

section \<open>Posted scores and the best score\<close>

lemma solutionScores_append [simp]:
  "solutionScores (xs @ ys) = solutionScores xs @ solutionScores ys"
  by (induction xs rule: solutionScores.induct) simp_all

lemma improves_refl [simp]: "improves b [] b"
  by (simp add: improves_def)

lemma decreasing_last_le:
  "sorted_wrt (>) (b # xs) \<Longrightarrow> x \<in> set (b # xs) \<Longrightarrow> last (b # xs) \<le> (x::int)"
proof (induction xs arbitrary: b x)
  case Nil
  then show ?case by simp
next
  case (Cons y ys)
  have sy: "sorted_wrt (>) (y # ys)" and yb: "y < b"
    using Cons.prems(1) by simp_all
  have "last (y # ys) \<le> y" using Cons.IH[OF sy, of y] by simp
  moreover have "x \<in> set (y # ys) \<Longrightarrow> last (y # ys) \<le> x"
    using Cons.IH[OF sy] by simp
  ultimately show ?case using Cons.prems(2) yb by auto
qed

lemma improves_trans:
  assumes "improves b ms1 b1" and "improves b1 ms2 b2"
  shows "improves b (ms1 @ ms2) b2"
proof -
  let ?xs = "b # solutionScores ms1"
  let ?ys = "solutionScores ms2"
  have s1: "sorted_wrt (>) ?xs" and l1: "b1 = last ?xs"
    using assms(1) by (simp_all add: improves_def)
  have s2: "sorted_wrt (>) (b1 # ?ys)" and l2: "b2 = last (b1 # ?ys)"
    using assms(2) by (simp_all add: improves_def)
  have "\<forall>x \<in> set ?xs. \<forall>y \<in> set ?ys. x > y"
  proof (intro ballI)
    fix x y assume x: "x \<in> set ?xs" and y: "y \<in> set ?ys"
    have "b1 \<le> x" using decreasing_last_le[OF s1 x] l1 by simp
    moreover have "y < b1" using s2 y by simp
    ultimately show "x > y" by simp
  qed
  then have "sorted_wrt (>) (?xs @ ?ys)"
    using s1 s2 by (auto simp: sorted_wrt_append)
  moreover have "b2 = last (?xs @ ?ys)"
    using l1 l2 by (cases "?ys = []") simp_all
  moreover have "list_all isSearchMessage (ms1 @ ms2)"
    using assms by (simp add: improves_def)
  ultimately show ?thesis by (simp add: improves_def)
qed

lemma trace_improves:
  "\<exists>ms. posted (solveForFaculty fs ls ps ib i cur st) = posted st @ ms \<and>
        improves (bestScore st) ms (bestScore (solveForFaculty fs ls ps ib i cur st))"
  "\<exists>ms. posted (forPossible fs ls ps ib i cur cs st) = posted st @ ms \<and>
        improves (bestScore st) ms (bestScore (forPossible fs ls ps ib i cur cs st))"
proof (induct i cur st and i cur cs st
       rule: search_induct[where fs=fs and ls=ls and ps=ps and ib=ib])
  case (node i cur st)
  show ?case
  proof (cases "bestScore st \<le> cur")
    case True
    then show ?thesis by (simp add: solve_prune)
  next
    case False
    then have lt: "cur < bestScore st" by simp
    consider "i = length fs" | "i < length fs" | "length fs < i" by linarith
    then show ?thesis
    proof cases
      case 1
      then show ?thesis using lt by (simp add: solve_base improves_def)
    next
      case 2
      let ?r = "reported fs i st"
      obtain ms where ms: "posted (forPossible fs ls ps ib i cur (possibleFor ls ps (fs ! i) ?r) ?r)
                             = posted ?r @ ms"
        and imp: "improves (bestScore ?r) ms
                    (bestScore (forPossible fs ls ps ib i cur (possibleFor ls ps (fs ! i) ?r) ?r))"
        using node[OF lt 2] by blast
      obtain m0 where m0: "posted ?r = posted st @ m0" and i0: "improves (bestScore st) m0 (bestScore st)"
        by (cases "combinations st mod 1000 = 0") (simp_all add: reported_def improves_def)
      have "improves (bestScore st) (m0 @ ms)
              (bestScore (forPossible fs ls ps ib i cur (possibleFor ls ps (fs ! i) ?r) ?r))"
        using improves_trans[OF i0] imp by simp
      then show ?thesis using lt 2 ms m0 by (simp add: solve_step)
    next
      case 3
      then show ?thesis using lt by (simp add: solve_beyond)
    qed
  qed
next
  case (exhausted i cur st)
  then show ?case by simp
next
  case (attempt i cur c cs st)
  let ?f = "fs ! i"
  let ?new = "cur + (if isHappy c then 0 else 1)"
  let ?st1 = "solveForFaculty fs ls ps ib (Suc i) ?new (assign ?f c st)"
  let ?st2 = "backtrack ?f c ?st1"
  obtain m1 where m1: "posted ?st1 = posted st @ m1" and i1: "improves (bestScore st) m1 (bestScore ?st1)"
    using attempt.hyps(1) by auto
  obtain m2 where m2: "posted (forPossible fs ls ps ib i cur cs ?st2) = posted ?st2 @ m2"
    and i2: "improves (bestScore ?st2) m2 (bestScore (forPossible fs ls ps ib i cur cs ?st2))"
    using attempt.hyps(2) by auto
  have "improves (bestScore st) (m1 @ m2) (bestScore (forPossible fs ls ps ib i cur cs ?st2))"
    using improves_trans[OF i1] i2 by simp
  moreover have "posted (forPossible fs ls ps ib i cur cs ?st2) = posted st @ m1 @ m2"
    using m1 m2 by simp
  ultimately show ?case unfolding loop_step by blast
qed


lemma root_trace:
  "\<exists>ms. fst (solveFullSearchInWorker rnd ib fs ls tam ps bound) = ms \<and>
        improves bound ms (finalScore (snd (solveFullSearchInWorker rnd ib fs ls tam ps bound)))"
  using trace_improves(1)[of fs ls ps ib 0 0 "initialState bound"]
  by (simp add: solveFullSearchInWorker_alt initialState_def)

text \<open>
  C3. In the messages posted for a start request, the scores of the successive
  \<open>solutionUpdate\<close> messages decrease strictly, each of them is strictly below the
  \<open>initialBestScore\<close> of the request, the last message is the \<open>complete\<close> message, and the
  messages before it are progress and solution messages.
\<close>

theorem solution_scores_strictly_decrease:
  "sorted_wrt (>) (solutionScores
      (onmessage rnd inbound (Some (startRequest fs ls tam pairs initialBestScore)))) \<and>
   (\<forall>s \<in> set (solutionScores
      (onmessage rnd inbound (Some (startRequest fs ls tam pairs initialBestScore)))).
      s < initialBestScore) \<and>
   isComplete (last (onmessage rnd inbound (Some (startRequest fs ls tam pairs initialBestScore)))) \<and>
   list_all isSearchMessage
     (butlast (onmessage rnd inbound (Some (startRequest fs ls tam pairs initialBestScore))))"
proof -
  let ?R = "solveFullSearchInWorker rnd inbound fs ls tam (reconstructPreferredSlots pairs)
              initialBestScore"
  have imp: "improves initialBestScore (fst ?R) (finalScore (snd ?R))"
    using root_trace[of rnd inbound fs ls tam "reconstructPreferredSlots pairs" initialBestScore]
    by simp
  then have "sorted_wrt (>) (initialBestScore # solutionScores (fst ?R))"
    and "list_all isSearchMessage (fst ?R)"
    by (simp_all add: improves_def)
  then show ?thesis
    by (simp add: onmessage_startRequest)
qed

theorem solution_scores_strictly_decrease_witness:
  "onmessage noShuffle noSignals
     (Some (startRequest scenarioFaculty scenarioLectures noAvailability scenarioPreferences 2)) =
     [progressUpdate 0 ''A'' 0,
      solutionUpdate
        [(''A'', \<lparr>lecture = \<lparr>id' = 3, timeSlot = ''10am''\<rparr>, isHappy = True\<rparr>),
         (''B'', \<lparr>lecture = \<lparr>id' = 1, timeSlot = ''9am''\<rparr>, isHappy = False\<rparr>)] 1,
      complete 5 1] \<and>
   sorted_wrt (>) (solutionScores (onmessage noShuffle noSignals
     (Some (startRequest scenarioFaculty scenarioLectures noAvailability scenarioPreferences 2)))) \<and>
   list_all (\<lambda>s. s < 2) (solutionScores (onmessage noShuffle noSignals
     (Some (startRequest scenarioFaculty scenarioLectures noAvailability scenarioPreferences 2)))) \<and>
   isComplete (last (onmessage noShuffle noSignals
     (Some (startRequest scenarioFaculty scenarioLectures noAvailability scenarioPreferences 2))))"
proof -
  have a: "onmessage noShuffle noSignals
     (Some (startRequest scenarioFaculty scenarioLectures noAvailability scenarioPreferences 2)) =
     [progressUpdate 0 ''A'' 0,
      solutionUpdate
        [(''A'', \<lparr>lecture = \<lparr>id' = 3, timeSlot = ''10am''\<rparr>, isHappy = True\<rparr>),
         (''B'', \<lparr>lecture = \<lparr>id' = 1, timeSlot = ''9am''\<rparr>, isHappy = False\<rparr>)] 1,
      complete 5 1]"
    by code_simp
  show ?thesis
    using solution_scores_strictly_decrease[of noShuffle noSignals scenarioFaculty
        scenarioLectures noAvailability scenarioPreferences 2]
    by (simp add: a list_all_iff)
qed

text \<open>
  C4. At \<open>facultyIndex = length allFaculty\<close> the base case (lines 49--57) runs only when the
  running score is strictly below the best score, since the pruning test of line 44 comes
  first; it then replaces the best score by the running score and posts the schedule,
  and otherwise the state is left as it is. Over any call the best score is changed by
  these replacements only: the best score on return is the last element of the strictly
  decreasing sequence made of the best score on entry and the scores posted during the
  call.
\<close>

theorem bestScore_replaced_only_by_strictly_lower:
  "solveForFaculty fs ls ps ib (length fs) cur st =
     (if cur < bestScore st
      then st\<lparr>progressFacultyIndex := length fs, bestScore := cur,
              posted := posted st @ [solutionUpdate (schedule st) cur]\<rparr>
      else st) \<and>
   (\<exists>ms. posted (solveForFaculty fs ls ps ib i cur' st') = posted st' @ ms \<and>
         sorted_wrt (>) (bestScore st' # solutionScores ms) \<and>
         bestScore (solveForFaculty fs ls ps ib i cur' st') = last (bestScore st' # solutionScores ms))"
proof -
  have "solveForFaculty fs ls ps ib (length fs) cur st =
     (if cur < bestScore st
      then st\<lparr>progressFacultyIndex := length fs, bestScore := cur,
              posted := posted st @ [solutionUpdate (schedule st) cur]\<rparr>
      else st)"
    by (simp add: solve_base solve_prune)
  moreover have "\<exists>ms. posted (solveForFaculty fs ls ps ib i cur' st') = posted st' @ ms \<and>
         sorted_wrt (>) (bestScore st' # solutionScores ms) \<and>
         bestScore (solveForFaculty fs ls ps ib i cur' st') = last (bestScore st' # solutionScores ms)"
    using trace_improves(1)[of fs ls ps ib i cur' st'] unfolding improves_def by blast
  ultimately show ?thesis by blast
qed


theorem bestScore_replaced_only_by_strictly_lower_witness:
  "solveForFaculty scenarioFaculty scenarioLectures Map.empty noSignals 2 1 (initialState 2) =
     (initialState 2)\<lparr>progressFacultyIndex := 2, bestScore := 1,
        posted := [solutionUpdate [] 1]\<rparr> \<and>
   solveForFaculty scenarioFaculty scenarioLectures Map.empty noSignals 2 1 (initialState 1) =
     initialState 1"
proof -
  have l: "length scenarioFaculty = 2" by (simp add: scenarioFaculty_def)
  have a: "solveForFaculty scenarioFaculty scenarioLectures Map.empty noSignals 2 1
             (initialState 2) =
           (initialState 2)\<lparr>progressFacultyIndex := 2, bestScore := 1,
              posted := [solutionUpdate [] 1]\<rparr>"
    using bestScore_replaced_only_by_strictly_lower[of scenarioFaculty scenarioLectures
        Map.empty noSignals 1 "initialState 2", THEN conjunct1]
    by (simp add: l initialState_def)
  have b: "solveForFaculty scenarioFaculty scenarioLectures Map.empty noSignals 2 1
             (initialState 1) = initialState 1"
    using bestScore_replaced_only_by_strictly_lower[of scenarioFaculty scenarioLectures
        Map.empty noSignals 1 "initialState 1", THEN conjunct1]
    by (simp add: l initialState_def)
  show ?thesis using a b by (rule conjI)
qed

section \<open>The undo of a tentative addition\<close>














lemma delete_filter: "AList.delete k (filter p al) = filter p (AList.delete k al)"
  by (induction al) (auto simp: AList.delete_eq)

lemma delete_is_filter: "AList.delete k al = filter (\<lambda>e. fst e \<noteq> k) al"
  by (induction al) (auto simp: AList.delete_eq)











section \<open>What the handler does with a malformed request\<close>

lemma search_posts_search_messages:
  "list_all isSearchMessage (fst (solveFullSearchInWorker rnd ib fs ls tam ps bound))"
  using root_trace[of rnd ib fs ls tam ps bound] by (simp add: improves_def)

lemma those_all_present:
  "list_all (\<lambda>e. e \<noteq> None) es \<Longrightarrow> \<exists>xs. those es = Some xs"
  by (induction es) auto

lemma those_one_absent:
  "\<not> list_all (\<lambda>e. e \<noteq> None) es \<Longrightarrow> those es = None"
  by (induction es) (auto split: option.splits)

lemma mapEntries_all_present:
  "list_all (\<lambda>e. case e of None \<Rightarrow> False | Some (k, v) \<Rightarrow> v \<noteq> Malformed) es \<Longrightarrow>
   \<exists>kvs. mapEntries es = Inr kvs"
proof (induction es)
  case Nil
  then show ?case by simp
next
  case (Cons e es)
  then obtain k v where e: "e = Some (k, v)" and v: "v \<noteq> Malformed"
    by (cases e) auto
  obtain kvs where kvs: "mapEntries es = Inr kvs" using Cons by auto
  show ?case using e v kvs by (cases v) simp_all
qed

lemma mapEntries_one_malformed:
  "\<not> list_all (\<lambda>e. case e of None \<Rightarrow> False | Some (k, v) \<Rightarrow> v \<noteq> Malformed) es \<Longrightarrow>
   mapEntries es = Inl TypeError"
proof (induction es rule: mapEntries.induct)
  case 1
  then show ?case by simp
next
  case (2 es)
  then show ?case by simp
next
  case (3 k v es)
  then show ?case by (cases v) (auto split: sum.splits)
qed

lemma availability_unpacked:
  "(\<exists>tam. reconstructTeacherAvailabilityMap w = Inr tam) \<or>
   reconstructTeacherAvailabilityMap w = Inl TypeError"
  by (simp add: reconstructTeacherAvailabilityMap_def split: wire.splits option.splits)

lemma availability_ok:
  assumes "case w of Missing \<Rightarrow> True | Malformed \<Rightarrow> False
    | Given es \<Rightarrow> list_all (\<lambda>e. e \<noteq> None) es"
  shows "\<exists>tam. reconstructTeacherAvailabilityMap w = Inr tam"
proof (cases w)
  case (Given es)
  then have "list_all (\<lambda>e. e \<noteq> None) es" using assms by simp
  then obtain xs where "those es = Some xs" using those_all_present by blast
  then show ?thesis using Given by (simp add: reconstructTeacherAvailabilityMap_def)
qed (use assms in \<open>simp_all add: reconstructTeacherAvailabilityMap_def\<close>)

lemma availability_bad:
  assumes "\<not> (case w of Missing \<Rightarrow> True | Malformed \<Rightarrow> False
    | Given es \<Rightarrow> list_all (\<lambda>e. e \<noteq> None) es)"
  shows "reconstructTeacherAvailabilityMap w = Inl TypeError"
proof (cases w)
  case (Given es)
  then have "\<not> list_all (\<lambda>e. e \<noteq> None) es" using assms by simp
  then have "those es = None" by (rule those_one_absent)
  then show ?thesis using Given by (simp add: reconstructTeacherAvailabilityMap_def)
qed (use assms in \<open>simp_all add: reconstructTeacherAvailabilityMap_def\<close>)

lemma preferences_ok:
  "(case w of Given es \<Rightarrow>
      list_all (\<lambda>e. case e of None \<Rightarrow> False | Some (k, v) \<Rightarrow> v \<noteq> Malformed) es
    | _ \<Rightarrow> False) \<Longrightarrow>
   \<exists>ps. reconstructFacultyPreferredSlots w = Inr ps"
proof (cases w)
  case (Given es)
  assume "case w of Given es \<Rightarrow>
      list_all (\<lambda>e. case e of None \<Rightarrow> False | Some (k, v) \<Rightarrow> v \<noteq> Malformed) es
    | _ \<Rightarrow> False"
  then obtain kvs where "mapEntries es = Inr kvs"
    using Given mapEntries_all_present[of es] by auto
  then show ?thesis using Given by (simp add: reconstructFacultyPreferredSlots_def)
qed simp_all

lemma preferences_bad:
  "\<not> (case w of Given es \<Rightarrow>
      list_all (\<lambda>e. case e of None \<Rightarrow> False | Some (k, v) \<Rightarrow> v \<noteq> Malformed) es
    | _ \<Rightarrow> False) \<Longrightarrow>
   reconstructFacultyPreferredSlots w = Inl TypeError"
  using mapEntries_one_malformed
  by (cases w) (auto simp: reconstructFacultyPreferredSlots_def)

lemma preferences_unpacked:
  "(\<exists>ps. reconstructFacultyPreferredSlots w = Inr ps) \<or>
   reconstructFacultyPreferredSlots w = Inl TypeError"
  using preferences_ok[of w] preferences_bad[of w] by blast

lemma lectures_ok:
  assumes "case w of Given ls \<Rightarrow> list_all (\<lambda>l. l \<noteq> None) ls | _ \<Rightarrow> False"
  shows "\<exists>ls. iterateLectureSlots w = Inr ls"
proof (cases w)
  case (Given es)
  then have "list_all (\<lambda>e. e \<noteq> None) es" using assms by simp
  then obtain xs where "those es = Some xs" using those_all_present by blast
  then show ?thesis using Given by (simp add: iterateLectureSlots_def)
qed (use assms in \<open>simp_all add: iterateLectureSlots_def\<close>)

lemma lectures_bad:
  assumes "\<not> (case w of Given ls \<Rightarrow> list_all (\<lambda>l. l \<noteq> None) ls | _ \<Rightarrow> False)"
  shows "iterateLectureSlots w = Inl TypeError"
proof (cases w)
  case (Given es)
  then have "\<not> list_all (\<lambda>e. e \<noteq> None) es" using assms by simp
  then have "those es = None" by (rule those_one_absent)
  then show ?thesis using Given by (simp add: iterateLectureSlots_def)
qed (use assms in \<open>simp_all add: iterateLectureSlots_def\<close>)

lemma lectures_unpacked:
  "(\<exists>ls. iterateLectureSlots w = Inr ls) \<or> iterateLectureSlots w = Inl TypeError"
  using lectures_ok[of w] lectures_bad[of w] by blast

lemma faculty_ok:
  "(case w of Given fs \<Rightarrow> True | _ \<Rightarrow> False) \<Longrightarrow> \<exists>fs. spreadFaculty w = Inr fs"
  by (cases w) (auto simp: spreadFaculty_def)

lemma faculty_bad:
  "\<not> (case w of Given fs \<Rightarrow> True | _ \<Rightarrow> False) \<Longrightarrow> spreadFaculty w = Inl TypeError"
  by (cases w) (auto simp: spreadFaculty_def)

lemma onmessage_unpacked:
  assumes "reconstructTeacherAvailabilityMap (data_teacherAvailabilityMap d) = Inr tam"
    and "reconstructFacultyPreferredSlots (data_facultyPreferredSlots d) = Inr ps"
    and "iterateLectureSlots (data_allLectureSlots d) = Inr ls"
    and "spreadFaculty (data_allFaculty d) = Inr fs"
  shows "onmessage rnd ib (Some d) =
     fst (solveFullSearchInWorker rnd ib fs ls tam ps (data_initialBestScore d)) @
     [complete
        (finalCombinations
           (snd (solveFullSearchInWorker rnd ib fs ls tam ps (data_initialBestScore d))))
        (finalScore
           (snd (solveFullSearchInWorker rnd ib fs ls tam ps (data_initialBestScore d))))]"
  using assms by (simp add: onmessage_def split_beta Let_def)

lemma onmessage_fault:
  assumes "\<not> wellFormedRequest d"
  shows "onmessage rnd ib (Some d) = [error TypeError]"
proof -
  consider
    (a) "reconstructTeacherAvailabilityMap (data_teacherAvailabilityMap d) = Inl TypeError"
  | (p) "reconstructFacultyPreferredSlots (data_facultyPreferredSlots d) = Inl TypeError"
  | (l) "iterateLectureSlots (data_allLectureSlots d) = Inl TypeError"
  | (f) "spreadFaculty (data_allFaculty d) = Inl TypeError"
    using assms availability_bad[of "data_teacherAvailabilityMap d"]
      preferences_bad[of "data_facultyPreferredSlots d"]
      lectures_bad[of "data_allLectureSlots d"] faculty_bad[of "data_allFaculty d"]
    unfolding wellFormedRequest_def by blast
  then show ?thesis
  proof cases
    case a
    then show ?thesis by (simp add: onmessage_def)
  next
    case p
    then show ?thesis
      using availability_unpacked[of "data_teacherAvailabilityMap d"]
      by (auto simp: onmessage_def)
  next
    case l
    then show ?thesis
      using availability_unpacked[of "data_teacherAvailabilityMap d"]
        preferences_unpacked[of "data_facultyPreferredSlots d"]
      by (auto simp: onmessage_def)
  next
    case f
    then show ?thesis
      using availability_unpacked[of "data_teacherAvailabilityMap d"]
        preferences_unpacked[of "data_facultyPreferredSlots d"]
        lectures_unpacked[of "data_allLectureSlots d"]
      by (auto simp: onmessage_def)
  qed
qed

lemma startRequest_wellFormed:
  "wellFormedRequest (startRequest fs ls tam pairs bound)"
  by (simp add: wellFormedRequest_def startRequest_def list_all_iff case_prod_beta)

text \<open>
  C7, as amended. The handler validates nothing, but a request of the wrong shape makes
  the unpacking of lines 122, 123, 35--38 and 104 throw a \<^verbatim>\<open>TypeError\<close> inside the \<^verbatim>\<open>try\<close>,
  before the first call of \<open>solveForFaculty\<close>: availability data that \<^verbatim>\<open>new Map\<close> rejects,
  preference data that is missing, is not an array, or has an entry that cannot be
  destructured or whose slot collection is not iterable, a lecture list that is missing,
  not iterable or has a \<^verbatim>\<open>null\<close> element, a faculty list that is missing or not iterable.
  For such a request the error message is the only message posted. For every other
  request the search runs on the unpacked data and the messages are those of the search
  followed by the completion. The contents are not looked at: a request with
  well-shaped fields is of the second kind whatever its lecture ids and whatever faculty
  members its preference entries name.
\<close>

theorem structural_faults_are_reported:
  "(\<not> wellFormedRequest d \<longrightarrow> onmessage rnd inbound (Some d) = [error TypeError]) \<and>
   (wellFormedRequest d \<longrightarrow>
      (\<exists>tam ps ls fs.
         reconstructTeacherAvailabilityMap (data_teacherAvailabilityMap d) = Inr tam \<and>
         reconstructFacultyPreferredSlots (data_facultyPreferredSlots d) = Inr ps \<and>
         iterateLectureSlots (data_allLectureSlots d) = Inr ls \<and>
         spreadFaculty (data_allFaculty d) = Inr fs \<and>
         onmessage rnd inbound (Some d) =
           fst (solveFullSearchInWorker rnd inbound fs ls tam ps (data_initialBestScore d)) @
           [complete
              (finalCombinations (snd (solveFullSearchInWorker rnd inbound fs ls tam ps
                 (data_initialBestScore d))))
              (finalScore (snd (solveFullSearchInWorker rnd inbound fs ls tam ps
                 (data_initialBestScore d))))]) \<and>
      list_all isSearchMessage (butlast (onmessage rnd inbound (Some d))) \<and>
      isComplete (last (onmessage rnd inbound (Some d)))) \<and>
   wellFormedRequest (startRequest allFaculty allLectureSlots teacherAvailabilityMap
     facultyPreferredSlots initialBestScore)"
proof (intro conjI impI)
  assume "\<not> wellFormedRequest d"
  then show "onmessage rnd inbound (Some d) = [error TypeError]" by (rule onmessage_fault)
next
  assume wf: "wellFormedRequest d"
  obtain tam where tam:
    "reconstructTeacherAvailabilityMap (data_teacherAvailabilityMap d) = Inr tam"
    using wf availability_ok[of "data_teacherAvailabilityMap d"]
    unfolding wellFormedRequest_def by blast
  obtain ps where ps:
    "reconstructFacultyPreferredSlots (data_facultyPreferredSlots d) = Inr ps"
    using wf preferences_ok[of "data_facultyPreferredSlots d"]
    unfolding wellFormedRequest_def by blast
  obtain ls where ls: "iterateLectureSlots (data_allLectureSlots d) = Inr ls"
    using wf lectures_ok[of "data_allLectureSlots d"]
    unfolding wellFormedRequest_def by blast
  obtain fs where fs: "spreadFaculty (data_allFaculty d) = Inr fs"
    using wf faculty_ok[of "data_allFaculty d"]
    unfolding wellFormedRequest_def by blast
  note run = onmessage_unpacked[OF tam ps ls fs, of rnd inbound]
  show "\<exists>tam ps ls fs.
         reconstructTeacherAvailabilityMap (data_teacherAvailabilityMap d) = Inr tam \<and>
         reconstructFacultyPreferredSlots (data_facultyPreferredSlots d) = Inr ps \<and>
         iterateLectureSlots (data_allLectureSlots d) = Inr ls \<and>
         spreadFaculty (data_allFaculty d) = Inr fs \<and>
         onmessage rnd inbound (Some d) =
           fst (solveFullSearchInWorker rnd inbound fs ls tam ps (data_initialBestScore d)) @
           [complete
              (finalCombinations (snd (solveFullSearchInWorker rnd inbound fs ls tam ps
                 (data_initialBestScore d))))
              (finalScore (snd (solveFullSearchInWorker rnd inbound fs ls tam ps
                 (data_initialBestScore d))))]"
    using tam ps ls fs run by blast
  show "list_all isSearchMessage (butlast (onmessage rnd inbound (Some d)))"
    unfolding run by (simp add: search_posts_search_messages)
  show "isComplete (last (onmessage rnd inbound (Some d)))"
    unfolding run by simp
next
  show "wellFormedRequest (startRequest allFaculty allLectureSlots teacherAvailabilityMap
     facultyPreferredSlots initialBestScore)"
    by (rule startRequest_wellFormed)
qed

text \<open>
  The scenario's request with availability data \<^verbatim>\<open>[1]\<close>, with lecture list \<^verbatim>\<open>[null]\<close> and with
  the preference entry \<^verbatim>\<open>['A', 5]\<close> posts the error message only; the scenario's request
  itself ends with the completion.
\<close>

theorem structural_faults_are_reported_witness:
  "\<not> wellFormedRequest unreadableAvailability \<and>
   onmessage noShuffle noSignals (Some unreadableAvailability) = [error TypeError] \<and>
   \<not> wellFormedRequest nullLecture \<and>
   onmessage noShuffle noSignals (Some nullLecture) = [error TypeError] \<and>
   \<not> wellFormedRequest unreadableSlots \<and>
   onmessage noShuffle noSignals (Some unreadableSlots) = [error TypeError] \<and>
   wellFormedRequest
     (startRequest scenarioFaculty scenarioLectures noAvailability scenarioPreferences 2) \<and>
   isComplete (last (onmessage noShuffle noSignals
     (Some (startRequest scenarioFaculty scenarioLectures noAvailability
        scenarioPreferences 2)))) \<and>
   last (onmessage noShuffle noSignals
     (Some (startRequest scenarioFaculty scenarioLectures noAvailability
        scenarioPreferences 2))) = complete 5 1"
proof -
  let ?good = "startRequest scenarioFaculty scenarioLectures noAvailability
     scenarioPreferences 2"
  note claim = structural_faults_are_reported
  have a: "\<not> wellFormedRequest unreadableAvailability"
    by (simp add: wellFormedRequest_def unreadableAvailability_def startRequest_def)
  have l: "\<not> wellFormedRequest nullLecture"
    by (simp add: wellFormedRequest_def nullLecture_def startRequest_def)
  have s: "\<not> wellFormedRequest unreadableSlots"
    by (simp add: wellFormedRequest_def unreadableSlots_def startRequest_def)
  have g: "wellFormedRequest ?good"
    using claim[of ?good] by blast
  have ea: "onmessage noShuffle noSignals (Some unreadableAvailability) = [error TypeError]"
    using claim[of unreadableAvailability noShuffle noSignals] a by blast
  have el: "onmessage noShuffle noSignals (Some nullLecture) = [error TypeError]"
    using claim[of nullLecture noShuffle noSignals] l by blast
  have es: "onmessage noShuffle noSignals (Some unreadableSlots) = [error TypeError]"
    using claim[of unreadableSlots noShuffle noSignals] s by blast
  have c: "isComplete (last (onmessage noShuffle noSignals (Some ?good)))"
    using claim[of ?good noShuffle noSignals] g by blast
  have v: "last (onmessage noShuffle noSignals (Some ?good)) = complete 5 1"
    by code_simp
  show ?thesis using a l s g ea el es c v by simp
qed

text \<open>
  C7 as stated fails: a request with two lecture slots of the same id and a preference
  entry for a faculty member outside the list is searched (two candidate attempts, one
  solution) and ends with a completion, not with an error.
\<close>

theorem duplicate_ids_are_searched:
  "\<not> distinct (map id' sameIdLectures) \<and>
   \<not> list_all (\<lambda>(k, v). k \<in> set [''A'']) strangerPreferences \<and>
   wellFormedRequest (startRequest [''A''] sameIdLectures noAvailability strangerPreferences 2) \<and>
   onmessage noShuffle noSignals
     (Some (startRequest [''A''] sameIdLectures noAvailability strangerPreferences 2)) =
     [progressUpdate 0 ''A'' 0,
      solutionUpdate [(''A'', \<lparr>lecture = \<lparr>id' = 1, timeSlot = ''9am''\<rparr>, isHappy = False\<rparr>)] 1,
      complete 2 1]"
  by code_simp


section \<open>Inbound messages without payload\<close>

lemma inbound_irrelevant:
  "solveForFaculty fs ls ps ib i cur st = solveForFaculty fs ls ps ib' i cur st"
  "forPossible fs ls ps ib i cur cs st = forPossible fs ls ps ib' i cur cs st"
proof (induct i cur st and i cur cs st
       rule: search_induct[where fs=fs and ls=ls and ps=ps and ib=ib])
  case (node i cur st)
  show ?case
  proof (cases "bestScore st \<le> cur")
    case True
    then show ?thesis by (simp add: solve_prune)
  next
    case False
    then have lt: "cur < bestScore st" by simp
    consider "i = length fs" | "i < length fs" | "length fs < i" by linarith
    then show ?thesis
    proof cases
      case 1
      then show ?thesis using lt by (simp add: solve_base)
    next
      case 2
      then show ?thesis using lt node[OF lt 2] by (simp add: solve_step)
    next
      case 3
      then show ?thesis using lt by (simp add: solve_beyond)
    qed
  qed
next
  case (exhausted i cur st)
  then show ?case by simp
next
  case (attempt i cur c cs st)
  show ?case unfolding loop_step attempt.hyps(1)[symmetric] by (rule attempt.hyps(2))
qed

lemma worker_irrelevant:
  "solveFullSearchInWorker rnd ib fs ls tam ps bound =
   solveFullSearchInWorker rnd' ib' fs ls tam ps bound"
  by (simp add: solveFullSearchInWorker_alt inbound_irrelevant(1)[of fs ls ps ib _ _ _ ib'])

lemma onmessage_irrelevant: "onmessage rnd ib event = onmessage rnd' ib' event"
  by (simp add: onmessage_def worker_irrelevant[of rnd ib _ _ _ _ _ rnd' ib']
        split: option.splits sum.splits)

lemma combinations_grow:
  "combinations st \<le> combinations (solveForFaculty fs ls ps ib i cur st)"
  "combinations st + length cs \<le> combinations (forPossible fs ls ps ib i cur cs st)"
proof (induct i cur st and i cur cs st
       rule: search_induct[where fs=fs and ls=ls and ps=ps and ib=ib])
  case (node i cur st)
  show ?case
  proof (cases "bestScore st \<le> cur")
    case True
    then show ?thesis by (simp add: solve_prune)
  next
    case False
    then have lt: "cur < bestScore st" by simp
    consider "i = length fs" | "i < length fs" | "length fs < i" by linarith
    then show ?thesis
    proof cases
      case 1
      then show ?thesis using lt by (simp add: solve_base)
    next
      case 2
      then show ?thesis using lt node[OF lt 2] by (simp add: solve_step)
    next
      case 3
      then show ?thesis using lt by (simp add: solve_beyond)
    qed
  qed
next
  case (exhausted i cur st)
  then show ?case by simp
next
  case (attempt i cur c cs st)
  show ?case unfolding loop_step using attempt.hyps by simp
qed

lemma length_possibleFor_initial:
  "length (possibleFor ls ps f (reported fs i (initialState bound))) = length ls"
proof -
  have "possibleFor ls ps f (reported fs i (initialState bound)) =
          filter isHappy (map (\<lambda>l. \<lparr>lecture = l, isHappy = (timeSlot l \<in> preferredSlotsOf ps f)\<rparr>) ls) @
          filter (\<lambda>c. \<not> isHappy c)
            (map (\<lambda>l. \<lparr>lecture = l, isHappy = (timeSlot l \<in> preferredSlotsOf ps f)\<rparr>) ls)"
    by (simp add: possibleFor_def Let_def initialState_def assignedTimesOf_def)
  then show ?thesis
    using sum_length_filter_compl[of isHappy
        "map (\<lambda>l. \<lparr>lecture = l, isHappy = (timeSlot l \<in> preferredSlotsOf ps f)\<rparr>) ls"]
    by simp
qed

lemma root_attempts_every_lecture:
  assumes "0 < bound" and "fs \<noteq> []"
  shows "length ls \<le> finalCombinations (snd (solveFullSearchInWorker rnd ib fs ls tam ps bound))"
    and "\<exists>ms. fst (solveFullSearchInWorker rnd ib fs ls tam ps bound) =
               progressUpdate 0 (fs ! 0) 0 # ms"
proof -
  let ?r = "reported fs 0 (initialState bound)"
  have step: "solveForFaculty fs ls ps ib 0 0 (initialState bound) =
          forPossible fs ls ps ib 0 0 (possibleFor ls ps (fs ! 0) ?r) ?r"
    using assms by (simp add: solve_step initialState_def)
  have "combinations ?r + length (possibleFor ls ps (fs ! 0) ?r) \<le>
          combinations (forPossible fs ls ps ib 0 0 (possibleFor ls ps (fs ! 0) ?r) ?r)"
    by (rule combinations_grow(2))
  then have "length ls \<le>
          combinations (forPossible fs ls ps ib 0 0 (possibleFor ls ps (fs ! 0) ?r) ?r)"
    by (simp add: length_possibleFor_initial)
  then show "length ls \<le> finalCombinations (snd (solveFullSearchInWorker rnd ib fs ls tam ps bound))"
    by (simp add: solveFullSearchInWorker_alt step)
  obtain ms where "posted (forPossible fs ls ps ib 0 0 (possibleFor ls ps (fs ! 0) ?r) ?r) =
      posted ?r @ ms"
    using trace_improves(2)[of fs ls ps ib 0 0 "possibleFor ls ps (fs ! 0) ?r" ?r] by blast
  moreover have "posted ?r = [progressUpdate 0 (fs ! 0) 0]"
    by (simp add: reported_def initialState_def)
  ultimately show "\<exists>ms. fst (solveFullSearchInWorker rnd ib fs ls tam ps bound) =
               progressUpdate 0 (fs ! 0) 0 # ms"
    by (simp add: solveFullSearchInWorker_alt step)
qed

text \<open>
  C6, as amended. The worker has no cancellation: the handler posts nothing for an inbound
  message without payload, and the messages posted for a start request, the completion
  with its counters included, are the same whatever payload-less messages are delivered
  at the yield points of the search. The completion is posted when the search is
  exhausted.
\<close>

theorem payloadless_message_changes_nothing:
  "onmessage rnd inbound None = [] \<and>
   onmessage rnd inbound (Some d) = onmessage rnd noSignals (Some d)"
proof -
  have "onmessage rnd inbound None = []"
    by (simp add: onmessage_def onmessage_undefined_def)
  moreover have "onmessage rnd inbound (Some d) = onmessage rnd noSignals (Some d)"
    by (rule onmessage_irrelevant)
  ultimately show ?thesis by (rule conjI)
qed

text \<open>
  The scenario with a payload-less message delivered at its first yield.
\<close>

theorem payloadless_message_changes_nothing_witness:
  "onmessage noShuffle signalAtFirstYield (None :: unit eventData option) = [] \<and>
   onmessage noShuffle signalAtFirstYield
     (Some (startRequest scenarioFaculty scenarioLectures noAvailability scenarioPreferences 2)) =
     [progressUpdate 0 ''A'' 0,
      solutionUpdate
        [(''A'', \<lparr>lecture = \<lparr>id' = 3, timeSlot = ''10am''\<rparr>, isHappy = True\<rparr>),
         (''B'', \<lparr>lecture = \<lparr>id' = 1, timeSlot = ''9am''\<rparr>, isHappy = False\<rparr>)] 1,
      complete 5 1]"
proof -
  have a: "onmessage noShuffle noSignals
     (Some (startRequest scenarioFaculty scenarioLectures noAvailability scenarioPreferences 2)) =
     [progressUpdate 0 ''A'' 0,
      solutionUpdate
        [(''A'', \<lparr>lecture = \<lparr>id' = 3, timeSlot = ''10am''\<rparr>, isHappy = True\<rparr>),
         (''B'', \<lparr>lecture = \<lparr>id' = 1, timeSlot = ''9am''\<rparr>, isHappy = False\<rparr>)] 1,
      complete 5 1]"
    by code_simp
  show ?thesis
    using payloadless_message_changes_nothing[of noShuffle signalAtFirstYield
        "startRequest scenarioFaculty scenarioLectures noAvailability scenarioPreferences 2"]
    by (simp add: a)
qed

text \<open>
  C6 as stated fails: with one faculty member and 1001 lecture slots, a payload-less
  message is delivered at the yield that follows the first progress message, when no
  candidate has been attempted yet; the completion is posted after more than 1000
  candidate attempts.
\<close>

theorem search_continues_after_signal:
  "signalAtFirstYield 0 = 1 \<and>
   hd (onmessage noShuffle signalAtFirstYield
         (Some (startRequest [''A''] manyLectures noAvailability [] 2))) = progressUpdate 0 ''A'' 0 \<and>
   last (onmessage noShuffle signalAtFirstYield
         (Some (startRequest [''A''] manyLectures noAvailability [] 2))) =
     complete
       (finalCombinations (snd (solveFullSearchInWorker noShuffle signalAtFirstYield [''A'']
          manyLectures noAvailability (reconstructPreferredSlots []) 2)))
       (finalScore (snd (solveFullSearchInWorker noShuffle signalAtFirstYield [''A'']
          manyLectures noAvailability (reconstructPreferredSlots []) 2))) \<and>
   1000 < finalCombinations (snd (solveFullSearchInWorker noShuffle signalAtFirstYield [''A'']
          manyLectures noAvailability (reconstructPreferredSlots []) 2))"
proof -
  have len: "length manyLectures = 1001" by (simp add: manyLectures_def)
  have c: "length manyLectures \<le> finalCombinations (snd (solveFullSearchInWorker noShuffle
      signalAtFirstYield [''A''] manyLectures noAvailability (reconstructPreferredSlots []) 2))"
    by (rule root_attempts_every_lecture(1)) simp_all
  obtain ms where ms: "fst (solveFullSearchInWorker noShuffle signalAtFirstYield [''A'']
      manyLectures noAvailability (reconstructPreferredSlots []) 2) = progressUpdate 0 ([''A''] ! 0) 0 # ms"
    using root_attempts_every_lecture(2)[of 2 "[''A'']" noShuffle signalAtFirstYield manyLectures
        noAvailability "reconstructPreferredSlots []"] by auto
  show ?thesis
    using c len by (simp add: onmessage_startRequest ms signalAtFirstYield_def)
qed

section \<open>Independence of the random draws\<close>

text \<open>
  C9. The result of \<open>solveFullSearchInWorker\<close> and the messages of the handler do not
  depend on the random draws: the recursion is started on \<open>allFaculty\<close> as given, and the
  shuffled copy of line 104 is never read. Nor do they depend on the payload-less messages
  delivered at the yield points. Two runs on the same inputs therefore agree in every
  message and in the returned object.
\<close>

theorem rerun_is_deterministic:
  "solveFullSearchInWorker rnd inbound allFaculty allLectureSlots tam prefs initialBestScore =
     solveFullSearchInWorker rnd' inbound' allFaculty allLectureSlots tam prefs initialBestScore \<and>
   onmessage rnd inbound event = onmessage rnd' inbound' event \<and>
   solveFullSearchInWorker rnd inbound allFaculty allLectureSlots tam prefs initialBestScore =
     (posted (solveForFaculty allFaculty allLectureSlots prefs inbound 0 0
         (initialState initialBestScore)),
      \<lparr>finalCombinations = combinations (solveForFaculty allFaculty allLectureSlots prefs
          inbound 0 0 (initialState initialBestScore)),
       finalScore = bestScore (solveForFaculty allFaculty allLectureSlots prefs inbound 0 0
          (initialState initialBestScore))\<rparr>)"
proof -
  have eq: "solveFullSearchInWorker rnd inbound allFaculty allLectureSlots tam prefs
              initialBestScore =
            solveFullSearchInWorker rnd' inbound' allFaculty allLectureSlots tam prefs
              initialBestScore"
    by (rule worker_irrelevant)
  have "onmessage rnd inbound event = onmessage rnd' inbound' event"
    by (rule onmessage_irrelevant)
  then show ?thesis
    using eq by (simp add: solveFullSearchInWorker_alt)
qed

text \<open>
  Two different shuffles of the scenario's faculty list, two different deliveries, and the
  same result.
\<close>

theorem rerun_is_deterministic_witness:
  "shuffleArray alwaysFirst scenarioFaculty = [''B'', ''A''] \<and>
   shuffleArray noShuffle scenarioFaculty = [''A'', ''B''] \<and>
   solveFullSearchInWorker alwaysFirst signalAtFirstYield scenarioFaculty scenarioLectures noAvailability
     (reconstructPreferredSlots scenarioPreferences) 2 =
   solveFullSearchInWorker noShuffle noSignals scenarioFaculty scenarioLectures noAvailability
     (reconstructPreferredSlots scenarioPreferences) 2"
proof -
  have "shuffleArray alwaysFirst scenarioFaculty = [''B'', ''A'']"
    and "shuffleArray noShuffle scenarioFaculty = [''A'', ''B'']"
    by (simp_all add: shuffleArray_def alwaysFirst_def noShuffle_def scenarioFaculty_def)
  then show ?thesis
    using rerun_is_deterministic[of alwaysFirst signalAtFirstYield scenarioFaculty
        scenarioLectures noAvailability "reconstructPreferredSlots scenarioPreferences" 2 noShuffle
        noSignals, THEN conjunct1]
    by simp
qed

section \<open>Emitted schedules\<close>

lemma set_update_subset: "set (AList.update k v al) \<subseteq> insert (k, v) (set al)"
  by (induction al) auto

lemma distinct_map_update:
  "distinct (map g al) \<Longrightarrow> \<forall>e \<in> set al. g e \<noteq> g (k, v) \<Longrightarrow>
   distinct (map g (AList.update k v al))"
proof (induction al)
  case Nil
  then show ?case by simp
next
  case (Cons a al)
  have sub: "set (AList.update k v al) \<subseteq> insert (k, v) (set al)"
    by (rule set_update_subset)
  show ?case
  proof (cases "fst a = k")
    case True
    then show ?thesis using Cons.prems by (auto simp: image_iff)
  next
    case False
    have "g a \<notin> g ` set (AList.update k v al)"
      using Cons.prems sub by (auto simp: image_iff)
    then show ?thesis using False Cons by simp
  qed
qed

lemma key_once:
  "distinct (map fst al) \<Longrightarrow> k \<in> fst ` set al \<Longrightarrow> length (filter (\<lambda>e. fst e = k) al) = 1"
proof (induction al)
  case Nil
  then show ?case by simp
next
  case (Cons a al)
  show ?case
  proof (cases "fst a = k")
    case True
    then have "k \<notin> fst ` set al" using Cons.prems(1) by auto
    then have "filter (\<lambda>e. fst e = k) al = []" by (auto simp: filter_empty_conv)
    then show ?thesis using True by simp
  next
    case False
    then show ?thesis using Cons by auto
  qed
qed

lemma possibleFor_admissible:
  "c \<in> set (possibleFor ls ps (fs ! i) st) \<Longrightarrow> admissible fs ps i st c"
  by (simp add: possibleFor_iff admissible_def)

lemma admissible_cong:
  "sameConsumed st st' \<Longrightarrow> admissible fs ps i st' c = admissible fs ps i st c"
  by (simp add: sameConsumed_def admissible_def)

lemma attempt_restores_consumed:
  assumes "admissible fs ps i st c"
  shows "sameConsumed st (backtrack (fs ! i) c
           (solveForFaculty fs ls ps ib (Suc i) cur' (assign (fs ! i) c st)))"
  using consumed_restored(1)[of "assign (fs ! i) c st" fs ls ps ib "Suc i" cur'] assms
  by (auto simp: sameConsumed_def admissible_def fun_eq_iff)


lemma prunedSchedule_same:
  assumes "schedule st' = schedule st"
  shows "prunedSchedule fs i st st'"
proof -
  have "schedule st' = filter (\<lambda>e. True) (schedule st)" using assms by simp
  then have "\<exists>p. schedule st' = filter p (schedule st)" by (rule exI[of _ "\<lambda>e. True"])
  then show ?thesis unfolding prunedSchedule_def using assms by simp
qed

lemma prunedSchedule_trans:
  assumes "prunedSchedule fs i st st2" and "prunedSchedule fs i st2 st'"
  shows "prunedSchedule fs i st st'"
proof -
  obtain p where p: "schedule st2 = filter p (schedule st)"
    using assms(1) unfolding prunedSchedule_def by blast
  obtain q where q: "schedule st' = filter q (schedule st2)"
    using assms(2) unfolding prunedSchedule_def by blast
  have "schedule st' = filter (\<lambda>e. p e \<and> q e) (schedule st)"
    using p q by simp
  moreover have "fst ` set (schedule st) - set (drop i fs) \<subseteq> fst ` set (schedule st')"
    using assms unfolding prunedSchedule_def by blast
  ultimately show ?thesis unfolding prunedSchedule_def by blast
qed

lemma assign_scheduleOk:
  assumes ok: "scheduleOk ps st" and adm: "admissible fs ps i st c"
  shows "scheduleOk ps (assign (fs ! i) c st)"
proof -
  let ?g = "\<lambda>e. id' (lecture (snd e))"
  have sub: "set (AList.update (fs ! i) c (schedule st)) \<subseteq> insert (fs ! i, c) (set (schedule st))"
    by (rule set_update_subset)
  have fresh: "\<forall>e \<in> set (schedule st). ?g e \<noteq> ?g (fs ! i, c)"
    using ok adm unfolding scheduleOk_def admissible_def by auto
  have d1: "distinct (map fst (AList.update (fs ! i) c (schedule st)))"
    using ok by (simp add: scheduleOk_def distinct_update)
  have d2: "distinct (map ?g (AList.update (fs ! i) c (schedule st)))"
    using ok fresh by (intro distinct_map_update) (simp_all add: scheduleOk_def)
  have "\<forall>e \<in> insert (fs ! i, c) (set (schedule st)).
          ?g e \<in> insert (id' (lecture c)) (assignedLectureSlots st) \<and>
          isHappy (snd e) = (timeSlot (lecture (snd e)) \<in> preferredSlotsOf ps (fst e))"
    using ok adm unfolding scheduleOk_def admissible_def by auto
  then have "\<forall>e \<in> set (AList.update (fs ! i) c (schedule st)).
          ?g e \<in> insert (id' (lecture c)) (assignedLectureSlots st) \<and>
          isHappy (snd e) = (timeSlot (lecture (snd e)) \<in> preferredSlotsOf ps (fst e))"
    using sub by blast
  then show ?thesis using d1 d2 by (simp add: scheduleOk_def)
qed

lemma assign_keysCover:
  assumes "i < length fs" and "keysCover fs i st"
  shows "keysCover fs (Suc i) (assign (fs ! i) c st)"
proof -
  have t: "set (take (Suc i) fs) = insert (fs ! i) (set (take i fs))"
    using assms(1) by (simp add: take_Suc_conv_app_nth)
  have d: "set (drop i fs) = insert (fs ! i) (set (drop (Suc i) fs))"
    using assms(1) by (simp add: Cons_nth_drop_Suc[symmetric])
  show ?thesis
    using assms(2) unfolding keysCover_def t d by (auto simp: dom_update)
qed

lemma cover_shrink:
  "K2 \<subseteq> K \<Longrightarrow> K \<subseteq> T \<Longrightarrow> T \<subseteq> K \<union> D \<Longrightarrow> K - D \<subseteq> K2 \<Longrightarrow> K2 \<subseteq> T \<and> T \<subseteq> K2 \<union> D"
  by blast

lemma backtrack_schedule:
  assumes ok: "scheduleOk ps st" and cov: "keysCover fs i st" and i: "i < length fs"
    and pr: "prunedSchedule fs (Suc i) (assign (fs ! i) c st) st1"
    and same: "sameConsumed st (backtrack (fs ! i) c st1)"
  shows "scheduleOk ps (backtrack (fs ! i) c st1)"
    and "keysCover fs i (backtrack (fs ! i) c st1)"
    and "prunedSchedule fs i st (backtrack (fs ! i) c st1)"
proof -
  let ?f = "fs ! i"
  let ?st2 = "backtrack ?f c st1"
  obtain p where p: "schedule st1 = filter p (AList.update ?f c (schedule st))"
    using pr unfolding prunedSchedule_def by auto
  have low1: "fst ` set (schedule (assign ?f c st)) - set (drop (Suc i) fs)
                \<subseteq> fst ` set (schedule st1)"
    using pr unfolding prunedSchedule_def by blast
  have s2: "schedule ?st2 = filter (\<lambda>e. fst e \<noteq> ?f \<and> p e) (schedule st)"
  proof -
    have "schedule ?st2 = filter p (AList.delete ?f (AList.update ?f c (schedule st)))"
      by (simp add: p delete_filter)
    also have "\<dots> = filter p (AList.delete ?f (schedule st))"
      by (simp add: delete_update_same)
    also have "\<dots> = filter (\<lambda>e. fst e \<noteq> ?f \<and> p e) (schedule st)"
      by (simp add: delete_is_filter)
    finally show ?thesis .
  qed
  have d: "set (drop i fs) = insert ?f (set (drop (Suc i) fs))"
    using i by (simp add: Cons_nth_drop_Suc[symmetric])
  have low: "fst ` set (schedule st) - set (drop i fs) \<subseteq> fst ` set (schedule ?st2)"
  proof
    fix x assume x: "x \<in> fst ` set (schedule st) - set (drop i fs)"
    then have xf: "x \<noteq> ?f" and xd: "x \<notin> set (drop (Suc i) fs)" using d by auto
    have "x \<in> fst ` set (schedule (assign ?f c st))"
      using x by (simp add: dom_update)
    then have "x \<in> fst ` set (schedule st1)" using low1 xd by blast
    then obtain e where e: "e \<in> set (schedule st1)" "fst e = x" by auto
    then have "e \<in> set (AList.delete ?f (schedule st1))"
      using xf by (auto simp: delete_is_filter)
    then show "x \<in> fst ` set (schedule ?st2)" using e(2) by force
  qed
  show "prunedSchedule fs i st ?st2"
    unfolding prunedSchedule_def using s2 low by blast
  have a2: "assignedLectureSlots ?st2 = assignedLectureSlots st"
    using same unfolding sameConsumed_def by blast
  have "distinct (map fst (schedule ?st2))"
    and "distinct (map (\<lambda>e. id' (lecture (snd e))) (schedule ?st2))"
    using ok unfolding s2 scheduleOk_def by (simp_all add: distinct_map_filter)
  moreover have "\<forall>e \<in> set (schedule ?st2).
        id' (lecture (snd e)) \<in> assignedLectureSlots ?st2 \<and>
        isHappy (snd e) = (timeSlot (lecture (snd e)) \<in> preferredSlotsOf ps (fst e))"
    using ok unfolding s2 a2 scheduleOk_def by simp
  ultimately show "scheduleOk ps ?st2" unfolding scheduleOk_def by blast
  have k: "fst ` set (schedule ?st2) \<subseteq> fst ` set (schedule st)"
    unfolding s2 by auto
  have c1: "fst ` set (schedule st) \<subseteq> set (take i fs)"
    and c2: "set (take i fs) \<subseteq> fst ` set (schedule st) \<union> set (drop i fs)"
    using cov unfolding keysCover_def by simp_all
  show "keysCover fs i ?st2"
    unfolding keysCover_def by (rule cover_shrink[OF k c1 c2 low])
qed

lemma complete_schedule_valid:
  assumes "scheduleOk ps st" and "keysCover fs (length fs) st"
  shows "validSchedule fs ps (schedule st)"
proof -
  have keys: "set fs \<subseteq> fst ` set (schedule st)"
    using assms(2) by (simp add: keysCover_def)
  have d: "distinct (map fst (schedule st))"
    using assms(1) by (simp add: scheduleOk_def)
  have "length (filter (\<lambda>e. fst e = f) (schedule st)) = 1" if "f \<in> set fs" for f
    using key_once[OF d, of f] keys that by blast
  then have "\<forall>f \<in> set fs. length (filter (\<lambda>e. fst e = f) (schedule st)) = 1"
    by blast
  then show ?thesis using assms(1) by (simp add: validSchedule_def scheduleOk_def)
qed

lemma emitted_valid:
  "i \<le> length fs \<Longrightarrow> scheduleOk ps st \<Longrightarrow> keysCover fs i st \<Longrightarrow>
   solutionsValid fs ps (posted st) \<Longrightarrow>
   solutionsValid fs ps (posted (solveForFaculty fs ls ps ib i cur st)) \<and>
   prunedSchedule fs i st (solveForFaculty fs ls ps ib i cur st)"
  "i < length fs \<Longrightarrow> scheduleOk ps st \<Longrightarrow> keysCover fs i st \<Longrightarrow>
   solutionsValid fs ps (posted st) \<Longrightarrow> (\<forall>c \<in> set cs. admissible fs ps i st c) \<Longrightarrow>
   solutionsValid fs ps (posted (forPossible fs ls ps ib i cur cs st)) \<and>
   prunedSchedule fs i st (forPossible fs ls ps ib i cur cs st)"
proof (induct i cur st and i cur cs st
       rule: search_induct[where fs=fs and ls=ls and ps=ps and ib=ib])
  case (node i cur st)
  show ?case
  proof (cases "bestScore st \<le> cur")
    case True
    then show ?thesis using node.prems by (simp add: solve_prune prunedSchedule_same)
  next
    case False
    then have lt: "cur < bestScore st" by simp
    consider "i = length fs" | "i < length fs" using node.prems(1) by linarith
    then show ?thesis
    proof cases
      case 1
      have "validSchedule fs ps (schedule st)"
        using node.prems(2,3) 1 by (simp add: complete_schedule_valid)
      then have "solutionsValid fs ps (posted st @ [solutionUpdate (schedule st) cur])"
        using node.prems(4) by (auto simp: solutionsValid_def)
      moreover have "prunedSchedule fs i st
          (st\<lparr>progressFacultyIndex := length fs, bestScore := cur,
              posted := posted st @ [solutionUpdate (schedule st) cur]\<rparr>)"
        by (rule prunedSchedule_same) simp
      ultimately show ?thesis using lt 1 by (simp add: solve_base)
    next
      case 2
      let ?r = "reported fs i st"
      have r1: "scheduleOk ps ?r" using node.prems(2) by (simp add: scheduleOk_def)
      have r2: "keysCover fs i ?r" using node.prems(3) by (simp add: keysCover_def)
      have r3: "solutionsValid fs ps (posted ?r)"
        using node.prems(4) by (auto simp: solutionsValid_def reported_def)
      have r4: "\<forall>c \<in> set (possibleFor ls ps (fs ! i) ?r). admissible fs ps i ?r c"
        by (simp add: possibleFor_admissible)
      have "solutionsValid fs ps (posted (forPossible fs ls ps ib i cur
                (possibleFor ls ps (fs ! i) ?r) ?r)) \<and>
            prunedSchedule fs i ?r (forPossible fs ls ps ib i cur
                (possibleFor ls ps (fs ! i) ?r) ?r)"
        by (rule node.hyps[OF lt 2 2 r1 r2 r3 r4])
      then show ?thesis using lt 2 by (simp add: solve_step prunedSchedule_def)
    qed
  qed
next
  case (exhausted i cur st)
  then show ?case by (simp add: prunedSchedule_same)
next
  case (attempt i cur c cs st)
  let ?f = "fs ! i"
  let ?new = "cur + (if isHappy c then 0 else 1)"
  let ?st1 = "solveForFaculty fs ls ps ib (Suc i) ?new (assign ?f c st)"
  let ?st2 = "backtrack ?f c ?st1"
  have adm: "admissible fs ps i st c" using attempt.prems(5) by simp
  have i: "i < length fs" by (rule attempt.prems(1))
  have a1: "scheduleOk ps (assign ?f c st)"
    by (rule assign_scheduleOk[OF attempt.prems(2) adm])
  have a2: "keysCover fs (Suc i) (assign ?f c st)"
    by (rule assign_keysCover[OF i attempt.prems(3)])
  have a3: "solutionsValid fs ps (posted (assign ?f c st))"
    using attempt.prems(4) by simp
  have inner: "solutionsValid fs ps (posted ?st1) \<and> prunedSchedule fs (Suc i) (assign ?f c st) ?st1"
    using attempt.hyps(1)[OF _ a1 a2 a3] i by simp
  have same: "sameConsumed st ?st2"
    by (rule attempt_restores_consumed[OF adm])
  note bt = backtrack_schedule[OF attempt.prems(2,3) i conjunct2[OF inner] same]
  have b4: "solutionsValid fs ps (posted ?st2)" using inner by simp
  have b5: "\<forall>c \<in> set cs. admissible fs ps i ?st2 c"
    using attempt.prems(5) by (simp add: admissible_cong[OF same])
  have rest: "solutionsValid fs ps (posted (forPossible fs ls ps ib i cur cs ?st2)) \<and>
      prunedSchedule fs i ?st2 (forPossible fs ls ps ib i cur cs ?st2)"
    by (rule attempt.hyps(2)[OF i bt(1) bt(2) b4 b5])
  have "prunedSchedule fs i st (forPossible fs ls ps ib i cur cs ?st2)"
    by (rule prunedSchedule_trans[OF bt(3) conjunct2[OF rest]])
  then show ?case unfolding loop_step using rest by blast
qed

text \<open>
  C2. In every \<open>solutionUpdate\<close> message posted during a search, each faculty member of the
  input list is the key of exactly one entry of the transferred schedule, no lecture id
  occurs in more than one entry, and the \<open>isHappy\<close> flag of each entry equals the
  membership of the lecture's time slot in the preference set of the entry's faculty
  member (the empty set when the preferences have no entry for that member).
\<close>

theorem emitted_schedules_are_valid:
  assumes "solutionUpdate sched score \<in>
             set (fst (solveFullSearchInWorker rnd inbound allFaculty allLectureSlots tam
                    prefs initialBestScore))"
  shows "(\<forall>f \<in> set allFaculty. length (filter (\<lambda>e. fst e = f) sched) = 1) \<and>
         distinct (map (\<lambda>e. id' (lecture (snd e))) sched) \<and>
         (\<forall>e \<in> set sched.
            isHappy (snd e) = (timeSlot (lecture (snd e)) \<in> preferredSlotsOf prefs (fst e)))"
proof -
  let ?st0 = "initialState initialBestScore"
  have "scheduleOk prefs ?st0" "keysCover allFaculty 0 ?st0"
    "solutionsValid allFaculty prefs (posted ?st0)"
    by (simp_all add: scheduleOk_def keysCover_def solutionsValid_def initialState_def)
  then have "solutionsValid allFaculty prefs
      (posted (solveForFaculty allFaculty allLectureSlots prefs inbound 0 0 ?st0))"
    using emitted_valid(1)[of 0 allFaculty prefs ?st0 allLectureSlots inbound 0] by simp
  moreover have "solutionUpdate sched score \<in>
      set (posted (solveForFaculty allFaculty allLectureSlots prefs inbound 0 0 ?st0))"
    using assms by (simp add: solveFullSearchInWorker_alt)
  ultimately have "validSchedule allFaculty prefs sched"
    unfolding solutionsValid_def by blast
  then show ?thesis by (simp add: validSchedule_def)
qed


text \<open>The solution posted in the scenario.\<close>

theorem emitted_schedules_are_valid_witness:
  "solutionUpdate scenarioSolution 1 \<in>
     set (fst (solveFullSearchInWorker noShuffle noSignals scenarioFaculty scenarioLectures noAvailability
            (reconstructPreferredSlots scenarioPreferences) 2)) \<and>
   list_all (\<lambda>f. length (filter (\<lambda>e. fst e = f) scenarioSolution) = 1) scenarioFaculty \<and>
   distinct (map (\<lambda>e. id' (lecture (snd e))) scenarioSolution) \<and>
   list_all (\<lambda>e. isHappy (snd e) =
       (timeSlot (lecture (snd e)) \<in>
          preferredSlotsOf (reconstructPreferredSlots scenarioPreferences) (fst e)))
     scenarioSolution"
proof -
  have h: "solutionUpdate scenarioSolution 1 \<in>
     set (fst (solveFullSearchInWorker noShuffle noSignals scenarioFaculty scenarioLectures noAvailability
            (reconstructPreferredSlots scenarioPreferences) 2))"
    by code_simp
  show ?thesis
    using h emitted_schedules_are_valid[OF h] by (simp add: list_all_iff)
qed

section \<open>The search against the brute-force reference\<close>

text \<open>
  For a faculty list without duplicates the second condition of validity always holds:
  an assignment is valid exactly when its lecture ids are pairwise distinct.
\<close>

lemma validAssignment_distinct_faculty:
  assumes "distinct fs"
  shows "validAssignment fs a \<longleftrightarrow> distinct (map id' a)"
proof -
  let ?h = "\<lambda>(f, l). (f, timeSlot l)"
  have "map fst (map ?h (zip fs a)) = map fst (zip fs a)"
    by (simp add: case_prod_beta)
  also have "\<dots> = take (min (length fs) (length a)) fs"
    by (simp add: map_fst_zip_take)
  finally have "distinct (map fst (map ?h (zip fs a)))"
    using assms by simp
  then have "distinct (map ?h (zip fs a))"
    by (simp only: distinct_map)
  then show ?thesis by (simp add: validAssignment_def)
qed

lemma leastOf_trans:
  "leastOf cost b A1 b1 \<Longrightarrow> leastOf cost b1 A2 b2 \<Longrightarrow> leastOf cost b (A1 \<union> A2) b2"
  unfolding leastOf_def by (elim conjE disjE bexE) force+

lemma leastOf_prune: "\<forall>a \<in> A. b \<le> cost a \<Longrightarrow> leastOf cost b A b"
  by (simp add: leastOf_def)

lemma leastOf_single: "c < b \<Longrightarrow> cost a = c \<Longrightarrow> leastOf cost b {a} c"
  by (simp add: leastOf_def)

lemma leastOf_unique: "leastOf cost b A x \<Longrightarrow> leastOf cost b A y \<Longrightarrow> x = y"
  unfolding leastOf_def by (elim conjE disjE bexE) force+

lemma fold_min_leastOf:
  "leastOf cost b (set xs) (fold (\<lambda>a best. min best (cost a)) xs b)"
proof (induction xs arbitrary: b)
  case Nil
  then show ?case by (simp add: leastOf_def)
next
  case (Cons x xs)
  have "leastOf cost b {x} (min b (cost x))"
    by (auto simp: leastOf_def min_def)
  from leastOf_trans[OF this Cons.IH[of "min b (cost x)"]]
  show ?case by simp
qed

lemma zip_snoc:
  assumes "length as = i" and "i < length fs"
  shows "zip fs (as @ [l]) = zip fs as @ [(fs ! i, l)]"
proof -
  have "zip fs (as @ [l]) = zip (take i fs) as @ zip (drop i fs) [l]"
    using assms(1) by (simp add: zip_append2)
  moreover have "zip (take i fs) as = zip fs as"
  proof -
    have "zip (take i fs) as = take i (zip fs as)"
      using assms(1) by (simp add: take_zip)
    then show ?thesis using assms by simp
  qed
  moreover have "zip (drop i fs) [l] = [(fs ! i, l)]"
    using assms(2) by (simp add: Cons_nth_drop_Suc[symmetric])
  ultimately show ?thesis by simp
qed

lemma zip_take_right: "zip fs (take i a) = take i (zip fs a)"
proof (induction a arbitrary: fs i)
  case Nil
  then show ?case by simp
next
  case (Cons x a)
  show ?case
  proof (cases fs)
    case Nil
    then show ?thesis by simp
  next
    case (Cons f fs')
    then show ?thesis using Cons.IH by (cases i) simp_all
  qed
qed

lemma unhappyCount_take: "unhappyCount ps fs (take i a) \<le> unhappyCount ps fs a"
proof -
  let ?P = "\<lambda>(f, l). timeSlot l \<notin> preferredSlotsOf ps f"
  have "length (filter ?P (take i (zip fs a))) \<le> length (filter ?P (zip fs a))"
    using append_take_drop_id[of i "zip fs a"]
    by (metis filter_append le_add1 length_append)
  then show ?thesis by (simp add: unhappyCount_def zip_take_right)
qed

lemma unhappyCount_snoc:
  assumes "length as = i" and "i < length fs"
  shows "unhappyCount ps fs (as @ [l]) =
           unhappyCount ps fs as + (if timeSlot l \<in> preferredSlotsOf ps (fs ! i) then 0 else 1)"
  by (simp add: unhappyCount_def zip_snoc[OF assms])

lemma unhappyCount_le_length: "unhappyCount ps fs a \<le> int (length fs)"
proof -
  have "length (filter (\<lambda>(f, l). timeSlot l \<notin> preferredSlotsOf ps f) (zip fs a)) \<le> length (zip fs a)"
    by (rule length_filter_le)
  then show ?thesis by (simp add: unhappyCount_def)
qed


lemma nth_fresh_in_prefix:
  assumes "distinct (map g a)" and "i < length a"
  shows "g (a ! i) \<notin> g ` set (take i a)"
proof -
  have "a = take i a @ a ! i # drop (Suc i) a"
    using assms(2) by (rule id_take_nth_drop)
  then have "distinct (map g (take i a @ a ! i # drop (Suc i) a))"
    using assms(1) by simp
  then show ?thesis by auto
qed

lemma extensions_full:
  assumes "consistent fs ls ps (length fs) as cur st"
  shows "extensions fs ls (length fs) as = {as}"
  using assms unfolding extensions_def consistent_def by auto

lemma extensionsVia_insert:
  "extensionsVia fs ls i as (insert l L) =
     extensionsVia fs ls i as {l} \<union> extensionsVia fs ls i as L"
  unfolding extensionsVia_def by auto

lemma extensionsVia_empty [simp]: "extensionsVia fs ls i as {} = {}"
  unfolding extensionsVia_def by simp

lemma extensionsVia_single:
  assumes "length as = i" and "i < length fs"
  shows "extensionsVia fs ls i as {l} = extensions fs ls (Suc i) (as @ [l])"
proof (rule set_eqI)
  fix a
  show "a \<in> extensionsVia fs ls i as {l} \<longleftrightarrow> a \<in> extensions fs ls (Suc i) (as @ [l])"
  proof (cases "length a = length fs")
    case False
    then show ?thesis by (simp add: extensionsVia_def extensions_def)
  next
    case True
    then have ia: "i < length a" using assms(2) by simp
    have "(take i a = as \<and> a ! i = l) \<longleftrightarrow> take (Suc i) a = as @ [l]"
      using assms(1) ia by (auto simp: take_Suc_conv_app_nth)
    then show ?thesis by (auto simp: extensionsVia_def extensions_def)
  qed
qed

lemma extensions_via_possible:
  assumes con: "consistent fs ls ps i as cur st" and i: "i < length fs"
  shows "extensions fs ls i as =
           extensionsVia fs ls i as (lecture ` set (possibleFor ls ps (fs ! i) st))"
proof -
  have "a ! i \<in> lecture ` set (possibleFor ls ps (fs ! i) st)"
    if a: "a \<in> extensions fs ls i as" for a
  proof -
    have len: "length a = length fs" and sub: "set a \<subseteq> set ls"
      and val: "validAssignment fs a" and tk: "take i a = as"
      using a by (simp_all add: extensions_def)
    have ia: "i < length a" using i len by simp
    let ?c = "\<lparr>lecture = a ! i, isHappy = (timeSlot (a ! i) \<in> preferredSlotsOf ps (fs ! i))\<rparr>"
    have c1: "a ! i \<in> set ls" using sub ia by (auto simp: subset_iff)
    have "id' (a ! i) \<notin> id' ` set (take i a)"
      using val ia by (intro nth_fresh_in_prefix) (simp_all add: validAssignment_def)
    then have c2: "id' (a ! i) \<notin> assignedLectureSlots st"
      using con tk by (simp add: consistent_def)
    let ?h = "\<lambda>(f, l). (f, timeSlot l)"
    have iz: "i < length (zip fs a)" using i len by simp
    have "?h (zip fs a ! i) \<notin> ?h ` set (take i (zip fs a))"
      using val iz by (intro nth_fresh_in_prefix) (simp_all add: validAssignment_def)
    then have "(fs ! i, timeSlot (a ! i)) \<notin> ?h ` set (zip fs (take i a))"
      using i ia by (simp add: zip_take_right)
    then have "(fs ! i, timeSlot (a ! i)) \<notin> ?h ` set (zip fs as)"
      unfolding tk .
    then have c3: "timeSlot (a ! i) \<notin> assignedTimesOf st (fs ! i)"
      using con by (force simp: consistent_def)
    have "?c \<in> set (possibleFor ls ps (fs ! i) st)"
      using c1 c2 c3 by (simp add: possibleFor_iff)
    then have "lecture ?c \<in> lecture ` set (possibleFor ls ps (fs ! i) st)"
      by (rule imageI)
    then show ?thesis by simp
  qed
  then show ?thesis unfolding extensionsVia_def by auto
qed

lemma consistent_cong:
  "sameConsumed st st' \<Longrightarrow> consistent fs ls ps i as cur st' = consistent fs ls ps i as cur st"
  by (simp add: sameConsumed_def consistent_def)

lemma consistent_reported [simp]:
  "consistent fs ls ps i as cur (reported fs j st) = consistent fs ls ps i as cur st"
  by (rule consistent_cong) (simp add: sameConsumed_def)

lemma consistent_assign:
  assumes con: "consistent fs ls ps i as cur st" and i: "i < length fs"
    and adm: "admissible fs ps i st c" and inl: "lecture c \<in> set ls"
  shows "consistent fs ls ps (Suc i) (as @ [lecture c])
           (cur + (if isHappy c then 0 else 1)) (assign (fs ! i) c st)"
proof -
  let ?l = "lecture c"
  have len: "length as = i" and sub: "set as \<subseteq> set ls" and val: "validAssignment fs as"
    and asg: "assignedLectureSlots st = id' ` set as"
    and tms: "\<And>f. assignedTimesOf st f = {timeSlot l |l. (f, l) \<in> set (zip fs as)}"
    and cur: "cur = unhappyCount ps fs as"
    using con by (simp_all add: consistent_def)
  have a1: "id' ?l \<notin> id' ` set as" and a2: "timeSlot ?l \<notin> assignedTimesOf st (fs ! i)"
    and a3: "isHappy c = (timeSlot ?l \<in> preferredSlotsOf ps (fs ! i))"
    using adm asg by (simp_all add: admissible_def)
  have z: "zip fs (as @ [?l]) = zip fs as @ [(fs ! i, ?l)]"
    by (rule zip_snoc[OF len i])
  have "(fs ! i, timeSlot ?l) \<notin> (\<lambda>(f, l). (f, timeSlot l)) ` set (zip fs as)"
    using a2 unfolding tms by force
  then have v: "validAssignment fs (as @ [?l])"
    using val a1 by (simp add: validAssignment_def z)
  have t: "assignedTimesOf (assign (fs ! i) c st) f =
             {timeSlot l |l. (f, l) \<in> set (zip fs (as @ [?l]))}" for f
    unfolding z by (auto simp: tms)
  have u: "cur + (if isHappy c then 0 else 1) = unhappyCount ps fs (as @ [?l])"
    using a3 by (simp add: cur unhappyCount_snoc[OF len i])
  show ?thesis
    unfolding consistent_def using len i sub inl v asg t u by simp
qed

lemma search_least:
  "consistent fs ls ps i as cur st \<Longrightarrow>
   leastOf (unhappyCount ps fs) (bestScore st) (extensions fs ls i as)
     (bestScore (solveForFaculty fs ls ps ib i cur st))"
  "consistent fs ls ps i as cur st \<Longrightarrow> i < length fs \<Longrightarrow>
   (\<forall>c \<in> set cs. admissible fs ps i st c \<and> lecture c \<in> set ls) \<Longrightarrow>
   leastOf (unhappyCount ps fs) (bestScore st) (extensionsVia fs ls i as (lecture ` set cs))
     (bestScore (forPossible fs ls ps ib i cur cs st))"
proof (induct i cur st and i cur cs st arbitrary: as and as
       rule: search_induct[where fs=fs and ls=ls and ps=ps and ib=ib])
  case (node i cur st)
  have cur: "cur = unhappyCount ps fs as" and ile: "i \<le> length fs"
    using node.prems by (simp_all add: consistent_def)
  show ?case
  proof (cases "bestScore st \<le> cur")
    case True
    have "\<forall>a \<in> extensions fs ls i as. bestScore st \<le> unhappyCount ps fs a"
    proof
      fix a assume "a \<in> extensions fs ls i as"
      then have "take i a = as" by (simp add: extensions_def)
      then have "cur \<le> unhappyCount ps fs a"
        using unhappyCount_take[of ps fs i a] cur by simp
      then show "bestScore st \<le> unhappyCount ps fs a" using True by simp
    qed
    then show ?thesis using True by (simp add: solve_prune leastOf_prune)
  next
    case False
    then have lt: "cur < bestScore st" by simp
    consider "i = length fs" | "i < length fs" using ile by linarith
    then show ?thesis
    proof cases
      case 1
      have "extensions fs ls i as = {as}"
        using extensions_full node.prems 1 by simp
      then show ?thesis
        using lt 1 cur by (simp add: solve_base leastOf_single)
    next
      case 2
      let ?r = "reported fs i st"
      have con: "consistent fs ls ps i as cur ?r" using node.prems by simp
      have adm: "\<forall>c \<in> set (possibleFor ls ps (fs ! i) ?r).
                   admissible fs ps i ?r c \<and> lecture c \<in> set ls"
        by (auto intro: possibleFor_admissible simp: possibleFor_iff)
      have "leastOf (unhappyCount ps fs) (bestScore ?r)
              (extensionsVia fs ls i as (lecture ` set (possibleFor ls ps (fs ! i) ?r)))
              (bestScore (forPossible fs ls ps ib i cur (possibleFor ls ps (fs ! i) ?r) ?r))"
        by (rule node.hyps[OF lt 2 con 2 adm])
      then show ?thesis
        using lt 2 extensions_via_possible[OF con 2] by (simp add: solve_step)
    qed
  qed
next
  case (exhausted i cur st)
  then show ?case by (simp add: leastOf_prune)
next
  case (attempt i cur c cs st)
  let ?f = "fs ! i"
  let ?new = "cur + (if isHappy c then 0 else 1)"
  let ?st1 = "solveForFaculty fs ls ps ib (Suc i) ?new (assign ?f c st)"
  let ?st2 = "backtrack ?f c ?st1"
  have con: "consistent fs ls ps i as cur st" and i: "i < length fs"
    using attempt.prems by simp_all
  have adm: "admissible fs ps i st c" and inl: "lecture c \<in> set ls"
    using attempt.prems(3) by simp_all
  have len: "length as = i" using con by (simp add: consistent_def)
  have con1: "consistent fs ls ps (Suc i) (as @ [lecture c]) ?new (assign ?f c st)"
    by (rule consistent_assign[OF con i adm inl])
  have l1: "leastOf (unhappyCount ps fs) (bestScore st)
              (extensions fs ls (Suc i) (as @ [lecture c])) (bestScore ?st1)"
    using attempt.hyps(1)[OF con1] by simp
  have same: "sameConsumed st ?st2"
    by (rule attempt_restores_consumed[OF adm])
  have con2: "consistent fs ls ps i as cur ?st2"
    using con by (simp add: consistent_cong[OF same])
  have adm2: "\<forall>c \<in> set cs. admissible fs ps i ?st2 c \<and> lecture c \<in> set ls"
    using attempt.prems(3) by (simp add: admissible_cong[OF same])
  have l2: "leastOf (unhappyCount ps fs) (bestScore ?st1)
              (extensionsVia fs ls i as (lecture ` set cs))
              (bestScore (forPossible fs ls ps ib i cur cs ?st2))"
    using attempt.hyps(2)[OF con2 i adm2] by simp
  have "extensionsVia fs ls i as (lecture ` set (c # cs)) =
          extensions fs ls (Suc i) (as @ [lecture c]) \<union>
          extensionsVia fs ls i as (lecture ` set cs)"
    using extensionsVia_insert[of fs ls i as "lecture c" "lecture ` set cs"]
    by (simp add: extensionsVia_single[OF len i])
  then show ?case
    unfolding loop_step using leastOf_trans[OF l1 l2] by simp
qed


lemma extensions_root: "extensions fs ls 0 [] = set (completeAssignments fs ls)"
  by (auto simp: extensions_def completeAssignments_def set_n_lists)

lemma consistent_root: "consistent fs ls ps 0 [] 0 (initialState bound)"
  by (simp add: consistent_def validAssignment_def unhappyCount_def initialState_def
        assignedTimesOf_def)

lemma root_least:
  "leastOf (unhappyCount ps fs) bound (set (completeAssignments fs ls))
     (finalScore (snd (solveFullSearchInWorker rnd ib fs ls tam ps bound)))"
proof -
  have "leastOf (unhappyCount ps fs) (bestScore (initialState bound)) (extensions fs ls 0 [])
          (bestScore (solveForFaculty fs ls ps ib 0 0 (initialState bound)))"
    by (rule search_least(1)[OF consistent_root])
  moreover have "bestScore (initialState bound) = bound" by (simp add: initialState_def)
  ultimately show ?thesis by (simp add: extensions_root solveFullSearchInWorker_alt)
qed

lemma finalScore_bruteForce:
  "finalScore (snd (solveFullSearchInWorker rnd ib fs ls tam ps bound)) =
     bruteForce fs ls ps bound"
proof -
  have "leastOf (unhappyCount ps fs) bound (set (completeAssignments fs ls))
          (bruteForce fs ls ps bound)"
    unfolding bruteForce_def by (rule fold_min_leastOf)
  with root_least show ?thesis by (rule leastOf_unique)
qed

text \<open>
  C1. Started with \<open>initialBestScore\<close> equal to the number of faculty members plus one,
  \<open>solveFullSearchInWorker\<close> returns the \<open>finalScore\<close> that the brute-force reference
  computes from the same bound; and whenever a valid complete assignment exists, this is
  the minimum number of unpreferred entries over all valid complete assignments. (When
  none exists there is no minimum, and both return the bound.)
\<close>

theorem unbeatable_bound_gives_minimum:
  "finalScore (snd (solveFullSearchInWorker rnd inbound allFaculty allLectureSlots tam prefs
      (int (length allFaculty) + 1))) =
     bruteForce allFaculty allLectureSlots prefs (int (length allFaculty) + 1) \<and>
   (completeAssignments allFaculty allLectureSlots \<noteq> [] \<longrightarrow>
    finalScore (snd (solveFullSearchInWorker rnd inbound allFaculty allLectureSlots tam prefs
      (int (length allFaculty) + 1))) =
     Min (unhappyCount prefs allFaculty ` set (completeAssignments allFaculty allLectureSlots)))"
proof -
  let ?b = "int (length allFaculty) + 1"
  let ?A = "set (completeAssignments allFaculty allLectureSlots)"
  let ?r = "finalScore (snd (solveFullSearchInWorker rnd inbound allFaculty allLectureSlots tam
      prefs ?b))"
  have least: "leastOf (unhappyCount prefs allFaculty) ?b ?A ?r" by (rule root_least)
  have low: "\<forall>a \<in> ?A. ?r \<le> unhappyCount prefs allFaculty a"
    and ach: "?r = ?b \<or> (\<exists>a \<in> ?A. ?r = unhappyCount prefs allFaculty a)"
    using least unfolding leastOf_def by blast+
  have "?r = Min (unhappyCount prefs allFaculty ` ?A)"
    if ne: "completeAssignments allFaculty allLectureSlots \<noteq> []"
  proof -
    obtain a0 where a0: "a0 \<in> ?A" using ne by (cases "completeAssignments allFaculty allLectureSlots") auto
    have "?r \<le> unhappyCount prefs allFaculty a0" using low a0 by blast
    also have "\<dots> \<le> int (length allFaculty)" by (rule unhappyCount_le_length)
    finally have "?r \<noteq> ?b" by simp
    then obtain a where a: "a \<in> ?A" "?r = unhappyCount prefs allFaculty a"
      using ach by blast
    show ?thesis
    proof (rule Min_eqI[symmetric])
      show "finite (unhappyCount prefs allFaculty ` ?A)" by simp
      show "\<And>y. y \<in> unhappyCount prefs allFaculty ` ?A \<Longrightarrow> ?r \<le> y" using low by blast
      show "?r \<in> unhappyCount prefs allFaculty ` ?A" using a by blast
    qed
  qed
  then have "completeAssignments allFaculty allLectureSlots \<noteq> [] \<longrightarrow>
      ?r = Min (unhappyCount prefs allFaculty ` ?A)"
    by (rule impI)
  moreover have "?r = bruteForce allFaculty allLectureSlots prefs ?b"
    by (rule finalScore_bruteForce)
  ultimately show ?thesis by (intro conjI)
qed

text \<open>
  The scenario: valid complete assignments exist and the minimum is 1.
\<close>

theorem unbeatable_bound_gives_minimum_witness:
  "completeAssignments scenarioFaculty scenarioLectures \<noteq> [] \<and>
   bruteForce scenarioFaculty scenarioLectures (reconstructPreferredSlots scenarioPreferences) 3 = 1 \<and>
   Min (unhappyCount (reconstructPreferredSlots scenarioPreferences) scenarioFaculty `
          set (completeAssignments scenarioFaculty scenarioLectures)) = 1 \<and>
   finalScore (snd (solveFullSearchInWorker noShuffle noSignals scenarioFaculty scenarioLectures noAvailability
      (reconstructPreferredSlots scenarioPreferences) 3)) = 1"
proof -
  have l: "int (length scenarioFaculty) + 1 = 3" by (simp add: scenarioFaculty_def)
  have h: "completeAssignments scenarioFaculty scenarioLectures \<noteq> []" by code_simp
  have b: "bruteForce scenarioFaculty scenarioLectures
             (reconstructPreferredSlots scenarioPreferences) 3 = 1"
    by code_simp
  have m: "Min (unhappyCount (reconstructPreferredSlots scenarioPreferences) scenarioFaculty `
          set (completeAssignments scenarioFaculty scenarioLectures)) = 1"
    by code_simp
  show ?thesis
    using unbeatable_bound_gives_minimum[of noShuffle noSignals scenarioFaculty
        scenarioLectures noAvailability "reconstructPreferredSlots scenarioPreferences"] h b m
    by (simp add: l)
qed

lemma solutionScores_empty:
  "solutionScores ms = [] \<Longrightarrow> solutionUpdate sched n \<notin> set ms"
  by (induction ms rule: solutionScores.induct) auto

text \<open>
  C8. When no valid complete assignment scores strictly below \<open>initialBestScore\<close>, the
  handler posts the messages of the search followed by a completion whose \<open>finalScore\<close> is
  the original \<open>initialBestScore\<close>; the messages of the search are progress and solution
  messages only (no error), and no \<open>solutionUpdate\<close> message is posted at all.
\<close>

theorem unbeaten_bound_is_reported:
  assumes "\<forall>a \<in> set (completeAssignments allFaculty allLectureSlots).
             initialBestScore \<le> unhappyCount (reconstructPreferredSlots pairs) allFaculty a"
  shows "onmessage rnd inbound
           (Some (startRequest allFaculty allLectureSlots tam pairs initialBestScore)) =
         fst (solveFullSearchInWorker rnd inbound allFaculty allLectureSlots tam
                (reconstructPreferredSlots pairs) initialBestScore) @
         [complete
            (finalCombinations (snd (solveFullSearchInWorker rnd inbound allFaculty
               allLectureSlots tam (reconstructPreferredSlots pairs) initialBestScore)))
            initialBestScore] \<and>
         list_all isSearchMessage
           (fst (solveFullSearchInWorker rnd inbound allFaculty allLectureSlots tam
                (reconstructPreferredSlots pairs) initialBestScore)) \<and>
         (\<forall>sched score. solutionUpdate sched score \<notin>
            set (onmessage rnd inbound
                   (Some (startRequest allFaculty allLectureSlots tam pairs initialBestScore))))"
proof -
  let ?ps = "reconstructPreferredSlots pairs"
  let ?R = "solveFullSearchInWorker rnd inbound allFaculty allLectureSlots tam ?ps
              initialBestScore"
  have "leastOf (unhappyCount ?ps allFaculty) initialBestScore
          (set (completeAssignments allFaculty allLectureSlots)) (finalScore (snd ?R))"
    by (rule root_least)
  then have fin: "finalScore (snd ?R) = initialBestScore"
    using assms unfolding leastOf_def by force
  have imp: "improves initialBestScore (fst ?R) (finalScore (snd ?R))"
    using root_trace[of rnd inbound allFaculty allLectureSlots tam ?ps initialBestScore]
    by simp
  have srt: "sorted_wrt (>) (initialBestScore # solutionScores (fst ?R))"
    and lst: "finalScore (snd ?R) = last (initialBestScore # solutionScores (fst ?R))"
    and msg: "list_all isSearchMessage (fst ?R)"
    using imp by (simp_all add: improves_def)
  have none: "solutionScores (fst ?R) = []"
  proof (rule ccontr)
    assume ne: "solutionScores (fst ?R) \<noteq> []"
    then have "last (solutionScores (fst ?R)) \<in> set (solutionScores (fst ?R))" by simp
    then have "last (solutionScores (fst ?R)) < initialBestScore" using srt by simp
    then show False using lst fin ne by simp
  qed
  have "solutionUpdate sched score \<notin> set (fst ?R)" for sched score
    by (rule solutionScores_empty[OF none])
  then show ?thesis
    using fin msg by (simp add: onmessage_startRequest)
qed

text \<open>
  The scenario with \<open>initialBestScore = 1\<close>: every valid complete assignment scores at
  least 1, and the handler posts one progress message and the completion with
  \<open>finalScore = 1\<close>.
\<close>

theorem unbeaten_bound_is_reported_witness:
  "list_all (\<lambda>a. 1 \<le> unhappyCount (reconstructPreferredSlots scenarioPreferences)
                     scenarioFaculty a)
     (completeAssignments scenarioFaculty scenarioLectures) \<and>
   onmessage noShuffle noSignals
     (Some (startRequest scenarioFaculty scenarioLectures noAvailability scenarioPreferences 1)) =
     [progressUpdate 0 ''A'' 0, complete 5 1]"
proof -
  have h: "\<forall>a \<in> set (completeAssignments scenarioFaculty scenarioLectures).
             1 \<le> unhappyCount (reconstructPreferredSlots scenarioPreferences) scenarioFaculty a"
    by code_simp
  have r: "solveFullSearchInWorker noShuffle noSignals scenarioFaculty scenarioLectures noAvailability
             (reconstructPreferredSlots scenarioPreferences) 1 =
           ([progressUpdate 0 ''A'' 0], \<lparr>finalCombinations = 5, finalScore = 1\<rparr>)"
    by code_simp
  show ?thesis
    using h unbeaten_bound_is_reported[OF h, of noShuffle noSignals noAvailability]
    by (simp add: r list_all_iff)
qed

end
